theory Spec2Isabelle
  imports Complex_Main
begin

section \<open>Freewire: freely wired neural networks (model.py)\<close>

text \<open>
  The development embeds \<^verbatim>\<open>src/freewire/model.py\<close>: the class \<^verbatim>\<open>Op\<close> (one
  vectorised operation on the network tape) and the class \<^verbatim>\<open>Model\<close> (the compiler
  \<^verbatim>\<open>construct\<close> that assigns tape indices and builds the operations, the evaluator
  \<^verbatim>\<open>forward\<close>, and \<^verbatim>\<open>compile\<close>/\<^verbatim>\<open>fit\<close>).

  Tensor entries are 32-bit floats in the program. The definitions below work for any
  type of values that has a zero, an addition and a multiplication, and assume no law
  of them: what is proved of them holds whatever the arithmetic does (rounding,
  overflow, infinities, NaN). Where a claim depends on the arithmetic itself, the type
  \<open>fval\<close> below gives the values of IEEE arithmetic with its infinities and NaN.
\<close>

subsection \<open>Errors\<close>

text \<open>The exceptions that the Python code can raise, as values.\<close>

datatype error =
    UnboundLocalError   \<comment> \<open>a local variable read before its first assignment\<close>
  | KeyError            \<comment> \<open>a dictionary lookup of a missing key\<close>
  | ValueError          \<comment> \<open>\<^verbatim>\<open>list.remove\<close> of an absent element\<close>
  | IndexError          \<comment> \<open>a tensor index out of range, or a mask of another shape\<close>
  | AssertionError      \<comment> \<open>a failed \<^verbatim>\<open>assert\<close>\<close>
  | RuntimeError        \<comment> \<open>raised by \<^verbatim>\<open>fit\<close>, or by the tensor library on a shape mismatch\<close>
  | ZeroDivisionError
  | TypeError           \<comment> \<open>calling \<^verbatim>\<open>None\<close>\<close>

subsection \<open>Nodes and the object store\<close>

text \<open>
  The graph module is not part of the sources; \<^verbatim>\<open>model.py\<close> reads and writes the
  following attributes of a \<^verbatim>\<open>Node\<close>. Nodes are Python objects shared between the
  graph, the model and its operations, and \<^verbatim>\<open>construct\<close> mutates them in place, so a
  node is a reference into a store. The attributes \<^verbatim>\<open>bias\<close>, \<^verbatim>\<open>grad\<close> and
  \<^verbatim>\<open>in_edges\<close> are only written by \<^verbatim>\<open>update_graph\<close> and never read by the code
  below; they are left out of the record.

  The counter \<^verbatim>\<open>i\<close> of \<^verbatim>\<open>construct\<close> starts at 1, is incremented once for every
  node appended to \<^verbatim>\<open>op_nodes\<close> and decremented at most once for each of these nodes
  (lemma \<open>rollback_le\<close> below), so it never becomes negative and tape indices are
  natural numbers.
\<close>

type_synonym ref = nat

record node =
  inputs :: "ref list"
  op_id :: string
  activation :: string
  output_index :: int
  tape_index :: nat
  assigned :: bool

type_synonym store = "ref \<Rightarrow> node"

subsection \<open>Tensors as lists\<close>

text \<open>
  A 1-D tensor is a list, a 2-D tensor a list of rows. The tape has shape
  (batch-size, tape-length): one row per sample.
\<close>

type_synonym 'a matrix = "'a list list"

text \<open>\<^verbatim>\<open>torch.nn.utils.rnn.pad_sequence(seqs, batch_first=True)\<close>: every row is extended
  with zeros to the length of the longest one.\<close>

definition max_len :: "'a list list \<Rightarrow> nat" where
  "max_len xss = fold max (map length xss) 0"

definition pad_sequence :: "nat list list \<Rightarrow> nat list list" where
  "pad_sequence xss = map (\<lambda>xs. xs @ replicate (max_len xss - length xs) 0) xss"

text \<open>\<^verbatim>\<open>torch.unique(t, return_inverse=True, sorted=False)\<close>: the distinct entries of
  the tensor and, for every entry, its position among them. The library leaves the order
  of the distinct entries open; the model lists them in order of first occurrence. The
  only fact used about them is that the inverse index leads back to the entry itself.\<close>

definition index_of :: "'a list \<Rightarrow> 'a \<Rightarrow> nat" where
  "index_of us x = length (takeWhile (\<lambda>u. u \<noteq> x) us)"

definition torch_unique :: "nat list list \<Rightarrow> nat list \<times> nat list list" where
  "torch_unique xss =
     (let unique = remdups (concat xss)
      in (unique, map (map (index_of unique)) xss))"

subsection \<open>The class Op\<close>

record 'a op =
  nodes :: "ref list"
  input_indices :: "nat list list"
  output_indices :: "nat list"
  unique_input_indices :: "nat list"
  inverse_input_indices :: "nat list list"
  weights :: "'a matrix"
  bias :: "'a list"
  activation_index_map :: "(string \<times> nat list) list"

text \<open>
  The tables \<^verbatim>\<open>initialization_map\<close> and \<^verbatim>\<open>activation_map\<close> come from
  \<^verbatim>\<open>model_utils\<close>, which is not part of the sources; they are parameters. An
  initialiser receives the padded index tensor and returns the initial weights. It draws
  random numbers, so it also receives a seed (\<^verbatim>\<open>construct\<close> passes the number of
  operations built so far). An activation is a function on numbers, applied to every
  entry of a tensor.
\<close>

type_synonym 'a initializer = "nat \<Rightarrow> nat list list \<Rightarrow> 'a matrix"
type_synonym 'a initialization_map = "string \<Rightarrow> 'a initializer option"
type_synonym 'a activation_map = "string \<Rightarrow> ('a \<Rightarrow> 'a) option"

text \<open>The Python dictionaries keep their keys in insertion order; \<^verbatim>\<open>activation_index_map\<close>
  is iterated by \<^verbatim>\<open>forward\<close>, so it is an association list.\<close>

fun dict_append :: "(string \<times> nat list) list \<Rightarrow> string \<Rightarrow> nat \<Rightarrow> (string \<times> nat list) list" where
  "dict_append [] k v = [(k, [v])]"
| "dict_append ((k', vs) # d) k v =
     (if k' = k then (k', vs @ [v]) # d else (k', vs) # dict_append d k v)"

text \<open>\<^verbatim>\<open>for i, node in enumerate(self.nodes): ... activation_index_map[node.activation].append(i)\<close>\<close>

fun build_activation_index_map ::
  "store \<Rightarrow> ref list \<Rightarrow> nat \<Rightarrow> (string \<times> nat list) list \<Rightarrow> (string \<times> nat list) list" where
  "build_activation_index_map h [] i d = d"
| "build_activation_index_map h (n # ns) i d =
     build_activation_index_map h ns (Suc i) (dict_append d (activation (h n)) i)"

text \<open>\<^verbatim>\<open>weights[self.input_indices == 0] = 0\<close>\<close>

definition mask_zero :: "nat list list \<Rightarrow> ('a::{zero,plus,times}) matrix \<Rightarrow> 'a matrix" where
  "mask_zero idx w = map2 (map2 (\<lambda>k x. if k = 0 then 0 else x)) idx w"

definition same_shape :: "'a list list \<Rightarrow> 'b list list \<Rightarrow> bool" where
  "same_shape xss yss = (map length xss = map length yss)"

text \<open>
  \<^verbatim>\<open>Op.__init__\<close>. The first loop reads \<^verbatim>\<open>tape_index\<close> and \<^verbatim>\<open>inputs\<close> and writes
  only \<^verbatim>\<open>assigned\<close>, so its reads all see the store as it was on entry.
  \<^verbatim>\<open>pad_sequence\<close> raises on an empty list of sequences; a missing initialisation name
  is a \<^verbatim>\<open>KeyError\<close>; a weight tensor of another shape than the index tensor cannot be
  masked with it.
\<close>

definition set_assigned :: "ref list \<Rightarrow> store \<Rightarrow> store" where
  "set_assigned ns h = fold (\<lambda>n h. h(n := (h n)\<lparr>assigned := True\<rparr>)) ns h"

definition Op_init ::
  "('a::{zero,plus,times}) initialization_map \<Rightarrow> string \<Rightarrow> nat \<Rightarrow> store \<Rightarrow> ref list \<Rightarrow> error + ('a op \<times> store)" where
  "Op_init imap initialization seed h ns =
     (if ns = [] then Inl RuntimeError
      else
        let idx = pad_sequence (map (\<lambda>n. map (\<lambda>inp. tape_index (h inp)) (inputs (h n))) ns);
            outs = map (\<lambda>n. tape_index (h n)) ns;
            h' = set_assigned ns h;
            (unique, inverse) = torch_unique idx
        in case imap initialization of
             None \<Rightarrow> Inl KeyError
           | Some init \<Rightarrow>
               let w = init seed idx in
               if \<not> same_shape idx w then Inl IndexError
               else Inr (\<lparr>nodes = ns,
                          input_indices = idx,
                          output_indices = outs,
                          unique_input_indices = unique,
                          inverse_input_indices = inverse,
                          weights = mask_zero idx w,
                          bias = replicate (length idx) 0,
                          activation_index_map = build_activation_index_map h' ns 0 []\<rparr>, h'))"

subsection \<open>Op.forward\<close>

text \<open>\<^verbatim>\<open>torch.index_select(t, 1, idx)\<close> and \<^verbatim>\<open>t[:, idx]\<close>: the columns \<open>idx\<close> of
  every row.\<close>

definition index_select1 :: "'a matrix \<Rightarrow> nat list \<Rightarrow> 'a matrix" where
  "index_select1 t idx = map (\<lambda>row. map (\<lambda>k. row ! k) idx) t"

text \<open>\<^verbatim>\<open>torch.gather(x, 2, idx)\<close> on 3-D tensors: entry \<open>[b][i][j]\<close> of the result is
  \<open>x[b][i][idx[b][i][j]]\<close>.\<close>

definition gather2 :: "'a list list list \<Rightarrow> nat list list list \<Rightarrow> 'a list list list" where
  "gather2 x idx = map2 (map2 (\<lambda>row ks. map (\<lambda>k. row ! k) ks)) x idx"

text \<open>Writing the values \<open>vs\<close> at the positions \<open>idx\<close> of a row, one after the other
  (\<^verbatim>\<open>row[idx] = vs\<close>).\<close>

definition index_put :: "'a list \<Rightarrow> nat list \<Rightarrow> 'a list \<Rightarrow> 'a list" where
  "index_put row idx vs = fold (\<lambda>(k, v) r. r[k := v]) (zip idx vs) row"

text \<open>\<^verbatim>\<open>x.scatter(1, indices, src)\<close> with the same \<open>indices\<close> in every row.\<close>

definition scatter1 :: "'a matrix \<Rightarrow> nat list \<Rightarrow> 'a matrix \<Rightarrow> 'a matrix" where
  "scatter1 x indices src = map2 (\<lambda>row s. index_put row indices s) x src"

definition in_range :: "nat list \<Rightarrow> 'a matrix \<Rightarrow> bool" where
  "in_range idx t = (\<forall>row \<in> set t. \<forall>k \<in> set idx. k < length row)"

text \<open>
  The loop over \<^verbatim>\<open>self.activation_index_map.items()\<close>: the rows of the operation that
  carry the activation are gathered, the activation is looked up in \<^verbatim>\<open>activation_map\<close>
  (a \<^verbatim>\<open>KeyError\<close> if it is missing) and applied, and the results are scattered back.
\<close>

fun apply_activations ::
  "'a activation_map \<Rightarrow> (string \<times> nat list) list \<Rightarrow> 'a matrix \<Rightarrow> error + 'a matrix" where
  "apply_activations amap [] x = Inr x"
| "apply_activations amap ((a, indices) # rest) x =
     (case amap a of
        None \<Rightarrow> Inl KeyError
      | Some f \<Rightarrow>
          if \<not> in_range indices x then Inl RuntimeError
          else apply_activations amap rest
                 (scatter1 x indices (map (map f) (index_select1 x indices))))"

text \<open>
  \<^verbatim>\<open>torch.sum(x, dim=2)\<close> adds up the entries of every row (0 for a row without
  entries). The library does not fix the order in which it adds; the model adds from left
  to right. No law of the addition is assumed, so nothing below depends on the order.
\<close>

definition torch_sum :: "('a::{zero,plus}) list \<Rightarrow> 'a" where
  "torch_sum xs = foldl (+) 0 xs"

text \<open>
  The product tensor \<^verbatim>\<open>torch.mul(x, self.weights)\<close> of shape
  (batch-size, nodes, input-slots): the tape values are selected at the distinct input
  indices, repeated for every node of the operation, gathered along the inverse indices
  and multiplied by the weights. Its entry \<open>[b][i][j]\<close> is the contribution of input slot
  \<open>j\<close> to the weighted sum of node \<open>i\<close> on sample \<open>b\<close>.
\<close>

definition weighted :: "('a::{zero,plus,times}) op \<Rightarrow> 'a matrix \<Rightarrow> 'a list list list" where
  "weighted self t =
     (let batch_size = length t;
          idx3 = replicate batch_size (inverse_input_indices self);
          x0 = index_select1 t (unique_input_indices self);
          x1 = map (\<lambda>r. replicate (length (inverse_input_indices self)) r) x0;
          x2 = gather2 x1 idx3
      in map (\<lambda>m. map2 (map2 (*)) m (weights self)) x2)"

text \<open>
  The shapes that \<^verbatim>\<open>Op.__init__\<close> establishes and that no later step changes: the
  inverse indices and the weights have the shape of the index tensor, there is one bias
  and one output index per node, and the inverse indices point into the distinct indices.
  On tensors of other shapes the library would broadcast or raise; \<open>forward\<close> raises.
\<close>

definition shapes_ok :: "'a op \<Rightarrow> bool" where
  "shapes_ok self =
     (same_shape (inverse_input_indices self) (weights self)
      \<and> length (bias self) = length (inverse_input_indices self)
      \<and> length (output_indices self) = length (inverse_input_indices self)
      \<and> (\<forall>ks \<in> set (inverse_input_indices self). \<forall>k \<in> set ks.
            k < length (unique_input_indices self)))"

text \<open>
  \<^verbatim>\<open>Op.forward\<close>: weighted sums, bias, activations, and the write
  \<^verbatim>\<open>tape[:, self.output_indices] = x\<close>. Reading or writing a tape position that does
  not exist is an \<^verbatim>\<open>IndexError\<close>.
\<close>

definition forward :: "('a::{zero,plus,times}) activation_map \<Rightarrow> 'a op \<Rightarrow> 'a matrix \<Rightarrow> error + 'a matrix" where
  "forward amap self t =
     (if \<not> in_range (unique_input_indices self) t then Inl IndexError
      else if \<not> shapes_ok self then Inl RuntimeError
      else
        let x3 = weighted self t;
            x4 = map (map torch_sum) x3;
            x5 = map (\<lambda>r. map2 (+) r (bias self)) x4
        in (case apply_activations amap (activation_index_map self) x5 of
              Inl e \<Rightarrow> Inl e
            | Inr x6 \<Rightarrow>
                if \<not> in_range (output_indices self) t then Inl IndexError
                else Inr (map2 (\<lambda>row xr. index_put row (output_indices self) xr) t x6)))"

text \<open>
  The call \<^verbatim>\<open>op.forward(tape)\<close> as a step on the pair of the operation object and the
  tape: the body of \<^verbatim>\<open>forward\<close> assigns to no attribute of \<^verbatim>\<open>self\<close>, so the object
  after the call is the object before it.
\<close>

definition Op_forward :: "('a::{zero,plus,times}) activation_map \<Rightarrow> 'a op \<Rightarrow> 'a matrix \<Rightarrow> error + 'a op \<times> 'a matrix" where
  "Op_forward amap self t =
     (case forward amap self t of
        Inl e \<Rightarrow> Inl e
      | Inr t' \<Rightarrow> Inr (self, t'))"

subsection \<open>The class Model: construct\<close>

text \<open>The optimisers and loss functions of \<^verbatim>\<open>torch\<close> that \<^verbatim>\<open>compile\<close> can select.\<close>

datatype optimizer_obj = Adam | SGD
datatype loss_obj = MSELoss | CrossEntropyLoss

record 'a model =
  model_inputs :: "ref list"
  model_hidden :: "ref list"
  model_outputs :: "ref list"
  model_nodes :: "ref list"
  tape_size :: nat
  input_size :: nat
  output_size :: nat
  tape :: "'a matrix option"
  ops :: "'a op list"
  initialization :: string
  model_output_indices :: "nat list"
  optimizer :: "optimizer_obj option"
  loss_function :: "loss_obj option"

text \<open>\<^verbatim>\<open>for input_node in self.inputs: input_node.tape_index = i; input_node.assigned = True; i += 1\<close>\<close>

fun assign_inputs :: "ref list \<Rightarrow> store \<Rightarrow> nat \<Rightarrow> store \<times> nat" where
  "assign_inputs [] h i = (h, i)"
| "assign_inputs (n # ns) h i =
     assign_inputs ns (h(n := (h n)\<lparr>tape_index := i, assigned := True\<rparr>)) (i + 1)"

text \<open>The dictionary \<^verbatim>\<open>id_node_map\<close> from grouping tags to the nodes that carry them.\<close>

fun build_id_node_map :: "store \<Rightarrow> ref list \<Rightarrow> (string \<rightharpoonup> ref list) \<Rightarrow> (string \<rightharpoonup> ref list)" where
  "build_id_node_map h [] m = m"
| "build_id_node_map h (n # ns) m =
     build_id_node_map h ns
       (m(op_id (h n) \<mapsto> (case m (op_id (h n)) of None \<Rightarrow> [] | Some l \<Rightarrow> l) @ [n]))"

text \<open>
  The first inner loop of a round: every remaining node whose inputs are all assigned
  receives the next tape index and is appended to \<^verbatim>\<open>op_nodes\<close>.
\<close>

fun scan :: "ref list \<Rightarrow> store \<Rightarrow> nat \<Rightarrow> ref list \<Rightarrow> store \<times> nat \<times> ref list" where
  "scan [] h i op_nodes = (h, i, op_nodes)"
| "scan (n # ns) h i op_nodes =
     (if list_all (\<lambda>inp. assigned (h inp)) (inputs (h n))
      then scan ns (h(n := (h n)\<lparr>tape_index := i\<rparr>)) (i + 1) (op_nodes @ [n])
      else scan ns h i op_nodes)"

text \<open>
  The loop \<^verbatim>\<open>for id_node in id_node_map[node.op_id]\<close>, which appends the tag to
  \<^verbatim>\<open>fails\<close> and breaks at the first node of the tag that is not in \<^verbatim>\<open>op_nodes\<close>.
\<close>

fun group_check :: "ref list \<Rightarrow> ref list \<Rightarrow> string \<Rightarrow> string list \<Rightarrow> string list" where
  "group_check [] op_nodes k fails = fails"
| "group_check (id_node # rest) op_nodes k fails =
     (if id_node \<notin> set op_nodes then fails @ [k]
      else group_check rest op_nodes k fails)"

text \<open>
  The loop \<^verbatim>\<open>for node in op_nodes\<close> around it. The statement \<^verbatim>\<open>fails = []\<close> is
  inside the loop body in the source, so every iteration starts from the empty list. The
  variable \<^verbatim>\<open>fails\<close> is a local of \<^verbatim>\<open>construct\<close>: it is unbound (\<open>None\<close>) until
  the first iteration of this loop, and keeps its value from one round to the next.
\<close>

fun check_op_ids ::
  "store \<Rightarrow> (string \<rightharpoonup> ref list) \<Rightarrow> ref list \<Rightarrow> ref list \<Rightarrow> string list option
     \<Rightarrow> error + string list option" where
  "check_op_ids h id_node_map op_nodes [] fails = Inr fails"
| "check_op_ids h id_node_map op_nodes (n # ns) fails0 =
     (let fails = [] in
      if op_id (h n) \<noteq> ''any'' \<and> op_id (h n) \<notin> set fails
      then (case id_node_map (op_id (h n)) of
              None \<Rightarrow> Inl KeyError
            | Some id_nodes \<Rightarrow>
                check_op_ids h id_node_map op_nodes ns
                  (Some (group_check id_nodes op_nodes (op_id (h n)) fails)))
      else check_op_ids h id_node_map op_nodes ns (Some fails))"

text \<open>\<^verbatim>\<open>for node in op_nodes: if node.op_id in fails: i -= 1\<close>\<close>

fun rollback :: "store \<Rightarrow> ref list \<Rightarrow> string list \<Rightarrow> nat \<Rightarrow> nat" where
  "rollback h [] fails i = i"
| "rollback h (n # ns) fails i =
     rollback h ns fails (if op_id (h n) \<in> set fails then i - 1 else i)"

text \<open>\<^verbatim>\<open>for node in op_nodes: remaining_nodes.remove(node)\<close>\<close>

fun remove_nodes :: "ref list \<Rightarrow> ref list \<Rightarrow> error + ref list" where
  "remove_nodes [] remaining = Inr remaining"
| "remove_nodes (n # ns) remaining =
     (if n \<in> set remaining then remove_nodes ns (remove1 n remaining) else Inl ValueError)"

text \<open>The local variables of \<^verbatim>\<open>construct\<close> that live across the rounds of its
  \<^verbatim>\<open>while\<close> loop, together with the store.\<close>

record 'a cstate =
  c_store :: store
  c_i :: nat
  c_remaining :: "ref list"
  c_ops :: "'a op list"
  c_fails :: "string list option"

text \<open>One round: the body of \<^verbatim>\<open>while remaining_nodes != []\<close>.\<close>

definition construct_round ::
  "('a::{zero,plus,times}) initialization_map \<Rightarrow> string \<Rightarrow> (string \<rightharpoonup> ref list) \<Rightarrow> 'a cstate \<Rightarrow> error + 'a cstate" where
  "construct_round imap ini id_node_map st =
     (case scan (c_remaining st) (c_store st) (c_i st) [] of (h1, i1, op_nodes) \<Rightarrow>
       (case check_op_ids h1 id_node_map op_nodes op_nodes (c_fails st) of
          Inl e \<Rightarrow> Inl e
        | Inr None \<Rightarrow> Inl UnboundLocalError
        | Inr (Some fails) \<Rightarrow>
           (let i2 = (if fails \<noteq> [] then rollback h1 op_nodes fails i1 else i1);
                op_nodes2 = (if fails \<noteq> [] then filter (\<lambda>n. op_id (h1 n) \<notin> set fails) op_nodes
                             else op_nodes)
            in (case remove_nodes op_nodes2 (c_remaining st) of
                  Inl e \<Rightarrow> Inl e
                | Inr remaining2 \<Rightarrow>
                    (if op_nodes2 \<noteq> []
                     then (case Op_init imap ini (length (c_ops st)) h1 op_nodes2 of
                             Inl e \<Rightarrow> Inl e
                           | Inr (new_op, h2) \<Rightarrow>
                               Inr \<lparr>c_store = h2, c_i = i2, c_remaining = remaining2,
                                    c_ops = c_ops st @ [new_op], c_fails = Some fails\<rparr>)
                     else Inr \<lparr>c_store = h1, c_i = i2, c_remaining = remaining2,
                               c_ops = c_ops st, c_fails = Some fails\<rparr>)))))"

text \<open>
  The \<^verbatim>\<open>while\<close> loop has no bound in the source. The model runs it with fuel:
  \<open>None\<close> means that the loop is still running when the fuel is used up, so the loop
  returns iff some amount of fuel gives \<open>Some\<close>, and it runs forever iff every amount
  of fuel gives \<open>None\<close>.
\<close>

fun construct_loop ::
  "('a::{zero,plus,times}) initialization_map \<Rightarrow> string \<Rightarrow> (string \<rightharpoonup> ref list) \<Rightarrow> nat \<Rightarrow> 'a cstate
     \<Rightarrow> (error + 'a cstate) option" where
  "construct_loop imap ini id_node_map 0 st =
     (if c_remaining st = [] then Some (Inr st) else None)"
| "construct_loop imap ini id_node_map (Suc fuel) st =
     (if c_remaining st = [] then Some (Inr st)
      else (case construct_round imap ini id_node_map st of
              Inl e \<Rightarrow> Some (Inl e)
            | Inr st' \<Rightarrow> construct_loop imap ini id_node_map fuel st'))"

text \<open>
  \<^verbatim>\<open>Model.construct\<close>: indices of the input nodes, the rounds, and the tape indices
  of the outputs in the order of their \<^verbatim>\<open>output_index\<close> (\<^verbatim>\<open>sorted\<close> is stable, as
  \<open>sort_key\<close> is).
\<close>

definition construct ::
  "('a::{zero,plus,times}) initialization_map \<Rightarrow> nat \<Rightarrow> 'a model \<Rightarrow> store \<Rightarrow> (error + 'a model \<times> store) option" where
  "construct imap fuel self h =
     (case assign_inputs (model_inputs self) h 1 of (h0, i0) \<Rightarrow>
       (let remaining_nodes = model_hidden self @ model_outputs self;
            id_node_map = build_id_node_map h0 remaining_nodes Map.empty
        in (case construct_loop imap (initialization self) id_node_map fuel
                   \<lparr>c_store = h0, c_i = i0, c_remaining = remaining_nodes,
                    c_ops = [], c_fails = None\<rparr> of
              None \<Rightarrow> None
            | Some (Inl e) \<Rightarrow> Some (Inl e)
            | Some (Inr st) \<Rightarrow>
               (let outputs = sort_key (\<lambda>n. output_index (c_store st n)) (model_outputs self)
                in Some (Inr (self\<lparr>ops := c_ops st,
                                    model_outputs := outputs,
                                    model_output_indices :=
                                      map (\<lambda>n. tape_index (c_store st n)) outputs\<rparr>,
                              c_store st))))))"

text \<open>
  \<^verbatim>\<open>Model.__init__\<close>. The graph gives the three node lists and \<^verbatim>\<open>graph.nodes\<close>.
  The final \<^verbatim>\<open>update_graph\<close> copies weights and biases into attributes of the graph
  that are outside the record \<open>node\<close>, and changes nothing here.
\<close>

record graph =
  input_nodes :: "ref list"
  hidden_nodes :: "ref list"
  output_nodes :: "ref list"
  graph_nodes :: "ref list"

definition Model_init ::
  "('a::{zero,plus,times}) initialization_map \<Rightarrow> nat \<Rightarrow> graph \<Rightarrow> string \<Rightarrow> store \<Rightarrow> (error + 'a model \<times> store) option" where
  "Model_init imap fuel g ini h =
     (let self = \<lparr>model_inputs = input_nodes g,
                  model_hidden = hidden_nodes g,
                  model_outputs = output_nodes g,
                  model_nodes = graph_nodes g,
                  tape_size = length (input_nodes g @ hidden_nodes g @ output_nodes g) + 1,
                  input_size = length (input_nodes g),
                  output_size = length (output_nodes g),
                  tape = None,
                  ops = [],
                  initialization = ini,
                  model_output_indices = [],
                  optimizer = None,
                  loss_function = None\<rparr>
      in case construct imap fuel self h of
           None \<Rightarrow> None
         | Some (Inl e) \<Rightarrow> Some (Inl e)
         | Some (Inr (self', h')) \<Rightarrow>
             Some (Inr (self'\<lparr>optimizer := None, loss_function := None\<rparr>, h')))"

subsection \<open>Model.forward\<close>

text \<open>
  The argument of \<^verbatim>\<open>forward\<close> is a tensor of any rank: its shape and its entries in
  row-major order (a value that is not a tensor is converted to one before anything
  else happens). \<open>rows_of\<close> reads a 2-D tensor as a list of rows.
\<close>

record 'a tensor =
  shape :: "nat list"
  data :: "'a list"

definition rows_of :: "'a tensor \<Rightarrow> 'a matrix" where
  "rows_of x = map (\<lambda>b. take (shape x ! 1) (drop (b * (shape x ! 1)) (data x))) [0..<shape x ! 0]"

text \<open>
  \<^verbatim>\<open>tape[:, 1:self.input_size+1] = x\<close>. The slice of a row starts at position 1 and
  ends before position \<open>input_size + 1\<close> or at the end of the row. The row of \<open>x\<close> must have
  the length of the slice, or length 1 (it is then broadcast); otherwise the tensor library
  raises.
\<close>

definition slice_len :: "nat \<Rightarrow> 'a list \<Rightarrow> nat" where
  "slice_len n row = min (n + 1) (length row) - 1"

definition write_row :: "nat \<Rightarrow> 'a list \<Rightarrow> 'a list \<Rightarrow> 'a list" where
  "write_row n row xr =
     take 1 row
     @ (if length xr = slice_len n row then xr else replicate (slice_len n row) (hd xr))
     @ drop (slice_len n row + 1) row"

definition write_inputs :: "nat \<Rightarrow> 'a matrix \<Rightarrow> 'a matrix \<Rightarrow> error + 'a matrix" where
  "write_inputs n t x =
     (if \<forall>(row, xr) \<in> set (zip t x). length xr = slice_len n row \<or> length xr = 1
      then Inr (map2 (write_row n) t x)
      else Inl RuntimeError)"

text \<open>The loop \<^verbatim>\<open>for i, op in enumerate(self.ops): tape = op.forward(tape)\<close>. When an
  operation raises, the tape is as the operations before it left it.\<close>

fun run_ops :: "('a::{zero,plus,times}) activation_map \<Rightarrow> 'a op list \<Rightarrow> 'a matrix \<Rightarrow> error option \<times> 'a matrix" where
  "run_ops amap [] t = (None, t)"
| "run_ops amap (p # ps) t =
     (case forward amap p t of
        Inl e \<Rightarrow> (Some e, t)
      | Inr t' \<Rightarrow> run_ops amap ps t')"

text \<open>
  \<^verbatim>\<open>Model.forward\<close>. A cached tape with the right number of rows is zero-filled in
  place and used again, so it is the cached tape that the pass writes to; otherwise a new
  tape of zeros is allocated, and the model sees it only at \<^verbatim>\<open>self.tape = tape\<close>.
  The result is the error or the output, and the model as the call leaves it.
  \<^verbatim>\<open>output.backward()\<close> belongs to the tensor library: the parameter \<open>backward\<close> says
  whether it raises on a given output.
\<close>

definition initial_tape :: "('a::{zero,plus,times}) model \<Rightarrow> nat \<Rightarrow> bool \<times> 'a matrix" where
  "initial_tape self batch_size =
     (case tape self of
        None \<Rightarrow> (False, replicate batch_size (replicate (tape_size self) 0))
      | Some c \<Rightarrow>
          if length c = batch_size then (True, map (map (\<lambda>_. 0)) c)
          else (False, replicate batch_size (replicate (tape_size self) 0)))"

definition Model_forward ::
  "('a::{zero,plus,times}) activation_map \<Rightarrow> ('a matrix \<Rightarrow> error option) \<Rightarrow> 'a model \<Rightarrow> 'a tensor \<Rightarrow> bool
     \<Rightarrow> (error + 'a matrix) \<times> 'a model" where
  "Model_forward amap backward self x0 output_grad =
     (let x = (if length (shape x0) = 1 then x0\<lparr>shape := 1 # shape x0\<rparr> else x0)
      in if length (shape x) \<noteq> 2 then (Inl AssertionError, self)
         else
           (case initial_tape self (shape x ! 0) of (reused, t0) \<Rightarrow>
             (let keep = (\<lambda>t. if reused then self\<lparr>tape := Some t\<rparr> else self)
              in (case write_inputs (input_size self) t0 (rows_of x) of
                    Inl e \<Rightarrow> (Inl e, keep t0)
                  | Inr t1 \<Rightarrow>
                     (case run_ops amap (ops self) t1 of
                        (Some e, t2) \<Rightarrow> (Inl e, keep t2)
                      | (None, t2) \<Rightarrow>
                         (let self' = self\<lparr>tape := Some t2\<rparr>
                          in if \<not> in_range (model_output_indices self) t2
                             then (Inl IndexError, self')
                             else
                               (let output = index_select1 t2 (model_output_indices self)
                                in if output_grad
                                   then (case backward output of
                                           Some e \<Rightarrow> (Inl e, self')
                                         | None \<Rightarrow> (Inr output, self'))
                                   else (Inr output, self'))))))))"

subsection \<open>Model.compile and Model.fit\<close>

definition compile :: "'a model \<Rightarrow> string \<Rightarrow> string \<Rightarrow> 'a model" where
  "compile self opt lf =
     (let self1 = (if opt = ''adam'' then self\<lparr>optimizer := Some Adam\<rparr>
                   else if opt = ''sgd'' then self\<lparr>optimizer := Some SGD\<rparr>
                   else self)
      in if lf = ''mse'' then self1\<lparr>loss_function := Some MSELoss\<rparr>
         else if lf = ''crossentropy'' then self1\<lparr>loss_function := Some CrossEntropyLoss\<rparr>
         else self1)"

text \<open>
  The loss, its gradient and the update of the parameters belong to the tensor library.
  The parameter \<open>step\<close> stands for them: from the optimiser, the loss function, the model
  after the forward pass, the output and the targets of the minibatch it gives the
  operations with their new weights and biases, or the error that the library raises.
\<close>

type_synonym 'a train_step =
  "optimizer_obj \<Rightarrow> loss_obj \<Rightarrow> 'a model \<Rightarrow> 'a matrix \<Rightarrow> 'a tensor \<Rightarrow> error + 'a op list"

text \<open>\<^verbatim>\<open>torch.index_select(t, 0, torch.arange(start, end))\<close> on a tensor whose rows have
  \<open>w\<close> entries.\<close>

definition select_rows :: "'a tensor \<Rightarrow> nat \<Rightarrow> nat \<Rightarrow> 'a tensor" where
  "select_rows t start end =
     (let w = prod_list (tl (shape t))
      in \<lparr>shape = (end - start) # tl (shape t),
          data = take ((end - start) * w) (drop (start * w) (data t))\<rparr>)"

text \<open>The loop \<^verbatim>\<open>for batch in range(0, num_batches)\<close> of one epoch.\<close>

fun fit_batches ::
  "('a::{zero,plus,times}) activation_map \<Rightarrow> ('a matrix \<Rightarrow> error option) \<Rightarrow> 'a train_step \<Rightarrow> optimizer_obj
     \<Rightarrow> 'a tensor \<Rightarrow> 'a tensor \<Rightarrow> nat \<Rightarrow> nat list \<Rightarrow> 'a model \<Rightarrow> error option \<times> 'a model" where
  "fit_batches amap backward step opt X_tr y_tr batch_size [] self = (None, self)"
| "fit_batches amap backward step opt X_tr y_tr batch_size (batch # rest) self =
     (let start = batch * batch_size;
          end = min ((batch + 1) * batch_size) (shape X_tr ! 0)
      in (case Model_forward amap backward self (select_rows X_tr start end) False of
            (Inl e, self1) \<Rightarrow> (Some e, self1)
          | (Inr out, self1) \<Rightarrow>
              if shape y_tr = [] \<or> shape y_tr ! 0 < end then (Some IndexError, self1)
              else (case loss_function self1 of
                      None \<Rightarrow> (Some TypeError, self1)
                    | Some lf \<Rightarrow>
                       (case step opt lf self1 out (select_rows y_tr start end) of
                          Inl e \<Rightarrow> (Some e, self1)
                        | Inr ops' \<Rightarrow>
                            fit_batches amap backward step opt X_tr y_tr batch_size rest
                              (self1\<lparr>ops := ops'\<rparr>)))))"

text \<open>The loop \<^verbatim>\<open>for epoch in range(0, epochs)\<close>. The average
  \<^verbatim>\<open>epoch_loss /= num_batches\<close> divides the integer 0 by 0 when there is no batch.\<close>

fun fit_epochs ::
  "('a::{zero,plus,times}) activation_map \<Rightarrow> ('a matrix \<Rightarrow> error option) \<Rightarrow> 'a train_step \<Rightarrow> optimizer_obj
     \<Rightarrow> 'a tensor \<Rightarrow> 'a tensor \<Rightarrow> nat \<Rightarrow> int \<Rightarrow> nat \<Rightarrow> 'a model \<Rightarrow> error option \<times> 'a model" where
  "fit_epochs amap backward step opt X_tr y_tr batch_size num_batches 0 self = (None, self)"
| "fit_epochs amap backward step opt X_tr y_tr batch_size num_batches (Suc k) self =
     (case fit_batches amap backward step opt X_tr y_tr batch_size [0..<nat num_batches] self of
        (Some e, self1) \<Rightarrow> (Some e, self1)
      | (None, self1) \<Rightarrow>
          if num_batches = 0 then (Some ZeroDivisionError, self1)
          else fit_epochs amap backward step opt X_tr y_tr batch_size num_batches k self1)"

text \<open>
  \<^verbatim>\<open>Model.fit\<close>. The result is the error raised, if any, and the model as the call
  leaves it. \<^verbatim>\<open>epochs\<close> and \<^verbatim>\<open>batch_size\<close> are Python integers; \<^verbatim>\<open>//\<close> rounds
  down, as \<open>div\<close> on \<open>int\<close> does, and raises on a zero divisor.
\<close>

definition fit ::
  "('a::{zero,plus,times}) activation_map \<Rightarrow> ('a matrix \<Rightarrow> error option) \<Rightarrow> 'a train_step \<Rightarrow> 'a model
     \<Rightarrow> 'a tensor \<Rightarrow> 'a tensor \<Rightarrow> int \<Rightarrow> int \<Rightarrow> error option \<times> 'a model" where
  "fit amap backward step self X_tr y_tr epochs batch_size =
     (case optimizer self of
        None \<Rightarrow> (Some RuntimeError, self)
      | Some opt \<Rightarrow>
          if length (shape X_tr) \<noteq> 2 then (Some AssertionError, self)
          else if shape X_tr ! 1 \<noteq> input_size self then (Some AssertionError, self)
          else if batch_size = 0 then (Some ZeroDivisionError, self)
          else
            (case fit_epochs amap backward step opt X_tr y_tr (nat batch_size)
                    (int (shape X_tr ! 0) div batch_size) (nat epochs) self of
               (Some e, self1) \<Rightarrow> (Some e, self1)
             | (None, self1) \<Rightarrow> (None, self1\<lparr>tape := None\<rparr>)))"

subsection \<open>Floating-point values with infinities and NaN\<close>

text \<open>
  The values of IEEE arithmetic as far as its special values go: a finite value, the
  two infinities, and NaN. Sums and products follow the standard: an infinity times zero
  and the sum of the two infinities are NaN, and NaN absorbs everything. Finite results
  are taken exactly (rounding and overflow of finite values are not modelled, and the
  two zeros are one value). The type is used where a statement is about zero times a
  value.
\<close>

datatype fval = Fin real | PInf | NInf | NaN

instantiation fval :: "{zero, plus, times}"
begin

definition zero_fval :: fval where
  "zero_fval = Fin 0"

fun plus_fval :: "fval \<Rightarrow> fval \<Rightarrow> fval" where
  "plus_fval NaN y = NaN"
| "plus_fval x NaN = NaN"
| "plus_fval (Fin r) (Fin s) = Fin (r + s)"
| "plus_fval (Fin r) y = y"
| "plus_fval x (Fin s) = x"
| "plus_fval PInf PInf = PInf"
| "plus_fval NInf NInf = NInf"
| "plus_fval PInf NInf = NaN"
| "plus_fval NInf PInf = NaN"

fun times_fval :: "fval \<Rightarrow> fval \<Rightarrow> fval" where
  "times_fval NaN y = NaN"
| "times_fval x NaN = NaN"
| "times_fval (Fin r) (Fin s) = Fin (r * s)"
| "times_fval (Fin r) PInf = (if r = 0 then NaN else if 0 < r then PInf else NInf)"
| "times_fval (Fin r) NInf = (if r = 0 then NaN else if 0 < r then NInf else PInf)"
| "times_fval PInf (Fin s) = (if s = 0 then NaN else if 0 < s then PInf else NInf)"
| "times_fval NInf (Fin s) = (if s = 0 then NaN else if 0 < s then NInf else PInf)"
| "times_fval PInf PInf = PInf"
| "times_fval NInf NInf = PInf"
| "times_fval PInf NInf = NInf"
| "times_fval NInf PInf = NInf"

instance ..

end

definition is_finite :: "fval \<Rightarrow> bool" where
  "is_finite v = (case v of Fin r \<Rightarrow> True | PInf \<Rightarrow> False | NInf \<Rightarrow> False | NaN \<Rightarrow> False)"

subsection \<open>Auxiliary notions for the proofs\<close>

text \<open>The row numbers stored in a dictionary from activation names to row numbers, and
  what \<^verbatim>\<open>Op.__init__\<close> guarantees about \<^verbatim>\<open>activation_index_map\<close>: every row of
  the operation is listed exactly once, under the activation of its node.\<close>

definition dict_values :: "(string \<times> nat list) list \<Rightarrow> nat list" where
  "dict_values d = concat (map snd d)"

definition groups_ok :: "store \<Rightarrow> ref list \<Rightarrow> (string \<times> nat list) list \<Rightarrow> bool" where
  "groups_ok h ns d =
     (distinct (dict_values d) \<and> set (dict_values d) = {0..<length ns}
      \<and> (\<forall>(a, is) \<in> set d. \<forall>i \<in> set is. activation (h (ns ! i)) = a))"

text \<open>The state in which \<^verbatim>\<open>construct\<close> enters its \<^verbatim>\<open>while\<close> loop, and the dictionary
  \<^verbatim>\<open>id_node_map\<close> it has built by then.\<close>

definition start_state :: "'a model \<Rightarrow> store \<Rightarrow> 'a cstate" where
  "start_state self h =
     \<lparr>c_store = fst (assign_inputs (model_inputs self) h 1),
      c_i = snd (assign_inputs (model_inputs self) h 1),
      c_remaining = model_hidden self @ model_outputs self,
      c_ops = [], c_fails = None\<rparr>"

definition start_map :: "'a model \<Rightarrow> store \<Rightarrow> (string \<rightharpoonup> ref list)" where
  "start_map self h =
     build_id_node_map (fst (assign_inputs (model_inputs self) h 1))
       (model_hidden self @ model_outputs self) Map.empty"

text \<open>The object that \<^verbatim>\<open>Model.__init__\<close> has set up when it calls \<^verbatim>\<open>construct\<close>.\<close>

definition blank_model :: "graph \<Rightarrow> string \<Rightarrow> 'a model" where
  "blank_model g ini =
     \<lparr>model_inputs = input_nodes g,
      model_hidden = hidden_nodes g,
      model_outputs = output_nodes g,
      model_nodes = graph_nodes g,
      tape_size = length (input_nodes g @ hidden_nodes g @ output_nodes g) + 1,
      input_size = length (input_nodes g),
      output_size = length (output_nodes g),
      tape = None,
      ops = [],
      initialization = ini,
      model_output_indices = [],
      optimizer = None,
      loss_function = None\<rparr>"

text \<open>The tensor \<^verbatim>\<open>x\<close> of \<^verbatim>\<open>forward\<close> after the bias is added and before the
  activations are applied: one weighted sum plus bias for every sample and node.\<close>

definition pre_activation :: "('a::{zero,plus,times}) op \<Rightarrow> 'a matrix \<Rightarrow> 'a matrix" where
  "pre_activation self t =
     map (\<lambda>r. map2 (+) r (bias self)) (map (map torch_sum) (weighted self t))"

text \<open>The invariant of the loop of \<^verbatim>\<open>construct\<close> behind the reserved index 0: the
  counter is at least 1, no operation built so far writes position 0, and every node of
  the given set that is not waiting in \<^verbatim>\<open>remaining_nodes\<close> has a tape index of at
  least 1.\<close>

definition index_inv :: "ref set \<Rightarrow> 'a cstate \<Rightarrow> bool" where
  "index_inv S st =
     (1 \<le> c_i st
      \<and> (\<forall>p \<in> set (c_ops st). 0 \<notin> set (output_indices p))
      \<and> (\<forall>n \<in> S. n \<notin> set (c_remaining st) \<longrightarrow> 1 \<le> tape_index (c_store st n)))"

text \<open>
  The tapes of a pass of \<^verbatim>\<open>Model.forward\<close>, in the order in which the pass produces
  them: the tape after the zero-fill, the tape after the inputs are written, and the tape
  after every operation that returns. \<open>ops_trace\<close> follows \<open>run_ops\<close> and \<open>tape_trace\<close>
  follows \<open>Model_forward\<close>, step by step.
\<close>

fun ops_trace :: "('a::{zero,plus,times}) activation_map \<Rightarrow> 'a op list \<Rightarrow> 'a matrix \<Rightarrow> 'a matrix list" where
  "ops_trace amap [] t = []"
| "ops_trace amap (p # ps) t =
     (case forward amap p t of
        Inl e \<Rightarrow> []
      | Inr t' \<Rightarrow> t' # ops_trace amap ps t')"

definition tape_trace ::
  "('a::{zero,plus,times}) activation_map \<Rightarrow> 'a model \<Rightarrow> 'a tensor \<Rightarrow> 'a matrix list" where
  "tape_trace amap self x0 =
     (let x = (if length (shape x0) = 1 then x0\<lparr>shape := 1 # shape x0\<rparr> else x0)
      in if length (shape x) \<noteq> 2 then []
         else
           (case initial_tape self (shape x ! 0) of (reused, t0) \<Rightarrow>
              t0 # (case write_inputs (input_size self) t0 (rows_of x) of
                      Inl e \<Rightarrow> []
                    | Inr t1 \<Rightarrow> t1 # ops_trace amap (ops self) t1)))"

text \<open>What a model needs for position 0 of its tape to stay 0: the tape has a position
  0, no operation writes there, and a cached tape has no empty row.\<close>

definition reserves_index0 :: "'a model \<Rightarrow> bool" where
  "reserves_index0 self =
     (0 < tape_size self
      \<and> (\<forall>p \<in> set (ops self). 0 \<notin> set (output_indices p))
      \<and> (case tape self of None \<Rightarrow> True | Some c \<Rightarrow> \<forall>row \<in> set c. row \<noteq> []))"

text \<open>A tape whose rows all have a position 0 that holds 0.\<close>

definition zero_at_0 :: "('a::zero) matrix \<Rightarrow> bool" where
  "zero_at_0 t = (\<forall>row \<in> set t. row \<noteq> [] \<and> row ! 0 = 0)"

text \<open>
  For a model without hidden nodes: the node whose value is column \<open>k\<close> of the output
  (\<^verbatim>\<open>construct\<close> sorts the output nodes by \<^verbatim>\<open>output_index\<close>), and the weighted sum of
  a node over the row \<open>xr\<close> of the input: slot \<open>j\<close> of the node multiplies the input value
  of its \<open>j\<close>-th input node with the weight of the slot; a slot beyond the inputs of the
  node is a padded slot and multiplies 0 with its weight.
\<close>

definition output_node :: "store \<Rightarrow> ref list \<Rightarrow> nat \<Rightarrow> ref" where
  "output_node h outs k = sort_key (\<lambda>n. output_index (h n)) outs ! k"

definition dense_sum :: "('a::{zero,plus,times}) list \<Rightarrow> ref list \<Rightarrow> ref list \<Rightarrow> 'a list \<Rightarrow> 'a" where
  "dense_sum xr ins inps wr =
     torch_sum (map (\<lambda>j. (if j < length inps then xr ! index_of ins (inps ! j) else 0) * wr ! j)
                  [0..<length wr])"

subsection \<open>Example graphs\<close>

text \<open>
  A node as the graph module hands it to the model: not yet assigned, with an arbitrary
  tape index. \<open>ones\<close> is an initialiser that sets every weight to 1, \<open>he_only\<close> a table
  with the one entry \<^verbatim>\<open>'he'\<close>, and \<open>acts\<close> a table with two activations. The values
  of these examples are real numbers.
\<close>

definition new_node :: "ref list \<Rightarrow> string \<Rightarrow> string \<Rightarrow> int \<Rightarrow> node" where
  "new_node ins g a k =
     \<lparr>inputs = ins, op_id = g, activation = a, output_index = k, tape_index = 0,
      assigned = False\<rparr>"

definition ones :: "real initializer" where
  "ones seed idx = map (map (\<lambda>_. 1)) idx"

definition he_only :: "real initialization_map" where
  "he_only k = (if k = ''he'' then Some ones else None)"

definition acts :: "real activation_map" where
  "acts a = (if a = ''relu'' then Some (\<lambda>v. max 0 v)
             else if a = ''linear'' then Some (\<lambda>v. v)
             else None)"

text \<open>
  Graph 1: input node 0; hidden nodes 1 (no tag, input 3), 2 (tag g, input 0),
  3 (no tag, input 0), 4 (tag g, input 0); output node 5 (tag g, input 3).
\<close>

definition store1 :: store where
  "store1 = (\<lambda>_. new_node [] ''any'' ''relu'' 0)
     (1 := new_node [3] ''any'' ''relu'' 0,
      2 := new_node [0] ''g'' ''relu'' 0,
      3 := new_node [0] ''any'' ''relu'' 0,
      4 := new_node [0] ''g'' ''relu'' 0,
      5 := new_node [3] ''g'' ''relu'' 0)"

definition graph1 :: graph where
  "graph1 = \<lparr>input_nodes = [0], hidden_nodes = [1, 2, 3, 4], output_nodes = [5],
             graph_nodes = [0, 1, 2, 3, 4, 5]\<rparr>"

text \<open>
  Graph 2: input node 0; hidden nodes 1 (tag g, input 0), 2 (no tag, input 0),
  3 (tag g, input 2); output node 4 (no tag, input 2).
\<close>

definition store2 :: store where
  "store2 = (\<lambda>_. new_node [] ''any'' ''relu'' 0)
     (1 := new_node [0] ''g'' ''relu'' 0,
      2 := new_node [0] ''any'' ''relu'' 0,
      3 := new_node [2] ''g'' ''relu'' 0,
      4 := new_node [2] ''any'' ''relu'' 0)"

definition graph2 :: graph where
  "graph2 = \<lparr>input_nodes = [0], hidden_nodes = [1, 2, 3], output_nodes = [4],
             graph_nodes = [0, 1, 2, 3, 4]\<rparr>"

text \<open>
  Graph 3: input node 0; hidden nodes 1 (tag g, input 0) and 2 (no tag, input 0);
  output node 3 (tag g, input 2). It has no cycle, and both nodes of tag g have all their
  inputs assigned once node 2 is finalised.
\<close>

definition store3 :: store where
  "store3 = (\<lambda>_. new_node [] ''any'' ''relu'' 0)
     (1 := new_node [0] ''g'' ''relu'' 0,
      2 := new_node [0] ''any'' ''relu'' 0,
      3 := new_node [2] ''g'' ''relu'' 0)"

definition graph3 :: graph where
  "graph3 = \<lparr>input_nodes = [0], hidden_nodes = [1, 2], output_nodes = [3],
             graph_nodes = [0, 1, 2, 3]\<rparr>"

text \<open>Graph 4: input node 0, and the hidden node 1 and the output node 2 are each other's
  input.\<close>

definition store4 :: store where
  "store4 = (\<lambda>_. new_node [] ''any'' ''relu'' 0)
     (1 := new_node [2] ''any'' ''relu'' 0,
      2 := new_node [1] ''any'' ''relu'' 0)"

definition graph4 :: graph where
  "graph4 = \<lparr>input_nodes = [0], hidden_nodes = [1], output_nodes = [2],
             graph_nodes = [0, 1, 2]\<rparr>"


definition graph5 :: graph where
  "graph5 = \<lparr>input_nodes = [0, 1, 2], hidden_nodes = [3, 4], output_nodes = [5],
             graph_nodes = [0, 1, 2, 3, 4, 5]\<rparr>"

text \<open>
  Graph 6 has no hidden node: input nodes 0 and 1; output nodes 2 (inputs 0, 1,
  output index 1, relu) and 3 (input 1, output index 0, linear).
\<close>

definition store6 :: store where
  "store6 = (\<lambda>_. new_node [] ''any'' ''relu'' 0)
     (2 := new_node [0, 1] ''any'' ''relu'' 1,
      3 := new_node [1] ''any'' ''linear'' 0)"

definition graph6 :: graph where
  "graph6 = \<lparr>input_nodes = [0, 1], hidden_nodes = [], output_nodes = [2, 3],
             graph_nodes = [0, 1, 2, 3]\<rparr>"

text \<open>A training step that leaves the parameters as they are, and a backward pass that
  does not raise.\<close>

definition keep_step :: "real train_step" where
  "keep_step opt lf self out y = Inr (ops self)"

definition no_raise :: "real matrix \<Rightarrow> error option" where
  "no_raise out = None"


definition op6 :: "real op" where
  "op6 = \<lparr>nodes = [2, 3], input_indices = [[1, 2], [2, 0]], output_indices = [3, 4],
          unique_input_indices = [1, 2, 0], inverse_input_indices = [[0, 1], [1, 2]],
          weights = [[1 / 2, - 1 / 2], [1, 0]], bias = [1 / 10, 0],
          activation_index_map = [(''relu'', [0]), (''linear'', [1])]\<rparr>"

definition tape6 :: "real matrix" where
  "tape6 = [[0, 1, 0, 7, 7], [0, - 1, 2, 7, 7]]"







text \<open>The model that \<^verbatim>\<open>Model.__init__\<close> builds from graph 6 with the initialiser
  \<open>ones\<close>.\<close>

definition model6 :: "real model" where
  "model6 =
     \<lparr>model_inputs = [0, 1], model_hidden = [], model_outputs = [3, 2],
      model_nodes = [0, 1, 2, 3], tape_size = 5, input_size = 2, output_size = 2,
      tape = None,
      ops = [\<lparr>nodes = [2, 3], input_indices = [[1, 2], [2, 0]], output_indices = [3, 4],
              unique_input_indices = [1, 2, 0], inverse_input_indices = [[0, 1], [1, 2]],
              weights = [[1, 1], [1, 0]], bias = [0, 0],
              activation_index_map = [(''relu'', [0]), (''linear'', [1])]\<rparr>],
      initialization = ''he'', model_output_indices = [4, 3],
      optimizer = None, loss_function = None\<rparr>"

text \<open>
  The store of graph 6 when \<^verbatim>\<open>construct\<close> builds its operation (the input nodes have
  the indices 1 and 2, the nodes 2 and 3 the indices 3 and 4), and the operation that
  \<^verbatim>\<open>Op.__init__\<close> builds there with the initialiser \<open>ones\<close>.
\<close>

definition store6_in :: store where
  "store6_in = fst (scan [2, 3] (fst (assign_inputs [0, 1] store6 1)) 3 [])"

definition op6_he :: "real op" where
  "op6_he = \<lparr>nodes = [2, 3], input_indices = [[1, 2], [2, 0]], output_indices = [3, 4],
             unique_input_indices = [1, 2, 0], inverse_input_indices = [[0, 1], [1, 2]],
             weights = [[1, 1], [1, 0]], bias = [0, 0],
             activation_index_map = [(''relu'', [0]), (''linear'', [1])]\<rparr>"

section \<open>Properties\<close>

subsection \<open>Writing into rows, activation groups, weighted sums\<close>

lemma length_fold_update [simp]:
  "length (fold (\<lambda>(k, v) r. r[k := v]) kvs row) = length row"
  by (induction kvs arbitrary: row) (auto split: prod.splits)

lemma fold_update_other:
  "k \<notin> fst ` set kvs \<Longrightarrow> fold (\<lambda>(k, v) r. r[k := v]) kvs row ! k = row ! k"
  by (induction kvs arbitrary: row) (auto split: prod.splits)

lemma fold_update_hit:
  "distinct (map fst kvs) \<Longrightarrow> (k, v) \<in> set kvs \<Longrightarrow> k < length row
     \<Longrightarrow> fold (\<lambda>(k, v) r. r[k := v]) kvs row ! k = v"
proof (induction kvs arbitrary: row)
  case Nil
  then show ?case by simp
next
  case (Cons p kvs)
  obtain k' v' where p: "p = (k', v')" by (cases p)
  show ?case
  proof (cases "(k, v) \<in> set kvs")
    case True
    with Cons p show ?thesis by simp
  next
    case False
    with Cons.prems p have eq: "k' = k" "v' = v" by auto
    with Cons.prems p have "k \<notin> fst ` set kvs" by auto
    then have "fold (\<lambda>(k, v) r. r[k := v]) kvs (row[k := v]) ! k = (row[k := v]) ! k"
      by (rule fold_update_other)
    with Cons.prems p eq show ?thesis by simp
  qed
qed

lemma length_index_put [simp]: "length (index_put row idx vs) = length row"
  by (simp add: index_put_def)

lemma index_put_other: "k \<notin> set idx \<Longrightarrow> index_put row idx vs ! k = row ! k"
  unfolding index_put_def by (rule fold_update_other) (auto dest: set_zip_leftD)

lemma index_put_hit:
  assumes "distinct idx" "i < length idx" "i < length vs" "idx ! i < length row"
  shows "index_put row idx vs ! (idx ! i) = vs ! i"
proof -
  have "distinct (map fst (zip idx vs))"
    using assms(1) by (simp add: map_fst_zip_take)
  moreover have "(idx ! i, vs ! i) \<in> set (zip idx vs)"
    using assms(2,3) by (auto simp: set_zip)
  ultimately show ?thesis
    unfolding index_put_def using assms(4) by (rule fold_update_hit)
qed

(* activation groups *)
lemma length_scatter1: "length src = length x \<Longrightarrow> length (scatter1 x indices src) = length x"
  by (simp add: scatter1_def)

lemma apply_activations_length:
  "apply_activations amap d x = Inr x' \<Longrightarrow> length x' = length x"
proof (induction d arbitrary: x)
  case Nil then show ?case by simp
next
  case (Cons p d)
  obtain a indices where p: "p = (a, indices)" by (cases p)
  from Cons.prems p obtain f where f: "amap a = Some f" and ir: "in_range indices x"
    and rec: "apply_activations amap d (scatter1 x indices (map (map f) (index_select1 x indices))) = Inr x'"
    by (auto split: option.splits if_splits)
  from Cons.IH[OF rec] show ?case by (simp add: scatter1_def index_select1_def)
qed

lemma apply_activations_row_length:
  "apply_activations amap d x = Inr x' \<Longrightarrow> b < length x \<Longrightarrow> length (x' ! b) = length (x ! b)"
proof (induction d arbitrary: x)
  case Nil then show ?case by simp
next
  case (Cons p d)
  obtain a indices where p: "p = (a, indices)" by (cases p)
  from Cons.prems p obtain f where f: "amap a = Some f" and ir: "in_range indices x"
    and rec: "apply_activations amap d (scatter1 x indices (map (map f) (index_select1 x indices))) = Inr x'"
    by (auto split: option.splits if_splits)
  have "length (x' ! b) = length (scatter1 x indices (map (map f) (index_select1 x indices)) ! b)"
    using Cons.IH[OF rec] Cons.prems(2) by (simp add: scatter1_def index_select1_def)
  then show ?case using Cons.prems(2) by (simp add: scatter1_def index_select1_def)
qed

lemma apply_activations_value:
  assumes "apply_activations amap d x = Inr x'"
    and "distinct (concat (map snd d))"
    and "b < length x" "i < length (x ! b)"
  shows "(\<forall>a indices. (a, indices) \<in> set d \<longrightarrow> i \<in> set indices \<longrightarrow>
            (\<exists>f. amap a = Some f \<and> x' ! b ! i = f (x ! b ! i)))
         \<and> (i \<notin> set (concat (map snd d)) \<longrightarrow> x' ! b ! i = x ! b ! i)"
  using assms
proof (induction d arbitrary: x)
  case Nil then show ?case by simp
next
  case (Cons p d)
  obtain a indices where p: "p = (a, indices)" by (cases p)
  from Cons.prems(1) p obtain f where f: "amap a = Some f" and ir: "in_range indices x"
    and rec: "apply_activations amap d (scatter1 x indices (map (map f) (index_select1 x indices))) = Inr x'"
    by (auto split: option.splits if_splits)
  let ?y = "scatter1 x indices (map (map f) (index_select1 x indices))"
  have yb: "?y ! b = index_put (x ! b) indices (map (\<lambda>k. f (x ! b ! k)) indices)"
    using Cons.prems(3) by (simp add: scatter1_def index_select1_def o_def)
  have dist: "distinct indices" "distinct (concat (map snd d))"
    "set indices \<inter> set (concat (map snd d)) = {}"
    using Cons.prems(2) p by auto
  have leny: "b < length ?y" "i < length (?y ! b)"
    using Cons.prems(3,4) yb by (simp_all add: scatter1_def index_select1_def)
  note IH = Cons.IH[OF rec dist(2) leny]
  have hit: "?y ! b ! i = f (x ! b ! i)" if "i \<in> set indices"
  proof -
    from that obtain j where j: "j < length indices" "indices ! j = i"
      by (auto simp: in_set_conv_nth)
    have "index_put (x ! b) indices (map (\<lambda>k. f (x ! b ! k)) indices) ! (indices ! j)
            = map (\<lambda>k. f (x ! b ! k)) indices ! j"
      using dist(1) j Cons.prems(4) by (intro index_put_hit) simp_all
    with j yb show ?thesis by simp
  qed
  have miss: "?y ! b ! i = x ! b ! i" if "i \<notin> set indices"
    using that yb by (simp add: index_put_other)
  show ?case
  proof (intro conjI allI impI)
    fix a' indices'
    assume mem: "(a', indices') \<in> set (p # d)" and i: "i \<in> set indices'"
    show "\<exists>f. amap a' = Some f \<and> x' ! b ! i = f (x ! b ! i)"
    proof (cases "(a', indices') = p")
      case True
      with p i dist(3) have "i \<in> set indices" "i \<notin> set (concat (map snd d))" by auto
      with IH hit f True p show ?thesis by auto
    next
      case False
      with mem have mem': "(a', indices') \<in> set d" by simp
      with i dist(3) have "i \<notin> set indices" by fastforce
      with IH mem' i miss show ?thesis by auto
    qed
  next
    assume "i \<notin> set (concat (map snd (p # d)))"
    with p have "i \<notin> set indices" "i \<notin> set (concat (map snd d))" by auto
    with IH miss show "x' ! b ! i = x ! b ! i" by simp
  qed
qed

lemma index_of_less: "x \<in> set us \<Longrightarrow> index_of us x < length us"
  by (induction us) (auto simp: index_of_def)

lemma nth_index_of: "x \<in> set us \<Longrightarrow> us ! index_of us x = x"
  by (induction us) (auto simp: index_of_def)

lemma dict_values_simps:
  "dict_values [] = []"
  "dict_values ((k, vs) # d) = vs @ dict_values d"
  by (simp_all add: dict_values_def)

lemma set_dict_append:
  "set (dict_values (dict_append d k v)) = insert v (set (dict_values d))"
  by (induction d k v rule: dict_append.induct) (auto simp: dict_values_simps)

lemma distinct_dict_append:
  "distinct (dict_values d) \<Longrightarrow> v \<notin> set (dict_values d)
     \<Longrightarrow> distinct (dict_values (dict_append d k v))"
  by (induction d k v rule: dict_append.induct) (auto simp: dict_values_simps set_dict_append)

lemma dict_append_member:
  "(a, is) \<in> set (dict_append d k v) \<Longrightarrow> i \<in> set is
     \<Longrightarrow> (i = v \<and> a = k) \<or> (\<exists>is0. (a, is0) \<in> set d \<and> i \<in> set is0)"
  by (induction d k v rule: dict_append.induct) (auto split: if_splits)

lemma build_activation_index_map_inv:
  assumes "distinct (dict_values d0)" "set (dict_values d0) = {0..<length pre}"
    and "\<forall>(a, is) \<in> set d0. \<forall>i \<in> set is. activation (h ((pre @ ns) ! i)) = a"
  shows "groups_ok h (pre @ ns) (build_activation_index_map h ns (length pre) d0)"
  using assms
proof (induction ns arbitrary: pre d0)
  case Nil
  then show ?case by (simp add: groups_ok_def)
next
  case (Cons n ns)
  let ?d = "dict_append d0 (activation (h n)) (length pre)"
  have 1: "distinct (dict_values ?d)"
    using Cons.prems(1,2) by (intro distinct_dict_append) auto
  have 2: "set (dict_values ?d) = {0..<length (pre @ [n])}"
    using Cons.prems(2) by (auto simp: set_dict_append)
  have 3: "\<forall>(a, is) \<in> set ?d. \<forall>i \<in> set is. activation (h (((pre @ [n]) @ ns) ! i)) = a"
  proof (clarify)
    fix a "is" i assume m: "(a, is) \<in> set ?d" "i \<in> set is"
    from dict_append_member[OF m]
    show "activation (h (((pre @ [n]) @ ns) ! i)) = a"
    proof
      assume "i = length pre \<and> a = activation (h n)"
      then show ?thesis by (simp add: nth_append)
    next
      assume "\<exists>is0. (a, is0) \<in> set d0 \<and> i \<in> set is0"
      with Cons.prems(3) show ?thesis by fastforce
    qed
  qed
  from Cons.IH[of ?d "pre @ [n]", OF 1 2 3] show ?case by simp
qed

lemma build_activation_index_map_ok:
  "groups_ok h ns (build_activation_index_map h ns 0 [])"
  using build_activation_index_map_inv[of "[]" "[]" h ns] by (simp add: dict_values_simps)

lemma set_assigned_other [simp]:
  "inputs (set_assigned ns h n) = inputs (h n)"
  "op_id (set_assigned ns h n) = op_id (h n)"
  "activation (set_assigned ns h n) = activation (h n)"
  "output_index (set_assigned ns h n) = output_index (h n)"
  "tape_index (set_assigned ns h n) = tape_index (h n)"
  unfolding set_assigned_def by (induction ns arbitrary: h; simp)+

lemma set_assigned_assigned [simp]:
  "assigned (set_assigned ns h n) = (n \<in> set ns \<or> assigned (h n))"
  unfolding set_assigned_def by (induction ns arbitrary: h) auto

lemma groups_ok_cong:
  "(\<And>n. activation (h' n) = activation (h n)) \<Longrightarrow> groups_ok h' ns d = groups_ok h ns d"
  by (simp add: groups_ok_def)

(* weighted *)
lemma length_weighted [simp]: "length (weighted self t) = length t"
  by (simp add: weighted_def gather2_def index_select1_def)

lemma same_shape_length: "same_shape xss yss \<Longrightarrow> length yss = length xss"
  unfolding same_shape_def by (metis length_map)

lemma same_shape_nth: "same_shape xss yss \<Longrightarrow> i < length xss \<Longrightarrow> length (yss ! i) = length (xss ! i)"
  unfolding same_shape_def by (metis length_map nth_map)

lemma weighted_row:
  assumes "b < length t" "i < length (inverse_input_indices self)"
    "same_shape (inverse_input_indices self) (weights self)"
  shows "weighted self t ! b ! i =
           map2 (*) (map (\<lambda>k. map (\<lambda>u. t ! b ! u) (unique_input_indices self) ! k)
                       (inverse_input_indices self ! i))
                (weights self ! i)"
  using assms(1,2) same_shape_length[OF assms(3)]
  by (simp add: weighted_def gather2_def index_select1_def Let_def)

lemma length_weighted_nth:
  assumes "b < length t" "same_shape (inverse_input_indices self) (weights self)"
  shows "length (weighted self t ! b) = length (inverse_input_indices self)"
  using assms(1) same_shape_length[OF assms(2)]
  by (simp add: weighted_def gather2_def index_select1_def Let_def)

lemma weighted_entry:
  assumes "b < length t" "i < length (inverse_input_indices self)" "shapes_ok self"
    "j < length (inverse_input_indices self ! i)"
  shows "weighted self t ! b ! i ! j =
           t ! b ! (unique_input_indices self ! (inverse_input_indices self ! i ! j))
             * weights self ! i ! j"
proof -
  have ss: "same_shape (inverse_input_indices self) (weights self)"
    using assms(3) by (simp add: shapes_ok_def)
  have k: "inverse_input_indices self ! i ! j < length (unique_input_indices self)"
    using assms(3) nth_mem[OF assms(2)] nth_mem[OF assms(4)] by (auto simp: shapes_ok_def)
  have lw: "length (weights self ! i) = length (inverse_input_indices self ! i)"
    using same_shape_nth[OF ss assms(2)] .
  show ?thesis
    using assms(4) lw k by (simp add: weighted_row[OF assms(1,2) ss])
qed

lemma length_weighted_entry:
  assumes "b < length t" "i < length (inverse_input_indices self)" "shapes_ok self"
  shows "length (weighted self t ! b ! i) = length (inverse_input_indices self ! i)"
proof -
  have ss: "same_shape (inverse_input_indices self) (weights self)"
    using assms(3) by (simp add: shapes_ok_def)
  show ?thesis
    using same_shape_nth[OF ss assms(2)] by (simp add: weighted_row[OF assms(1,2) ss])
qed

lemma fold_max_ge: "a \<le> fold max xs (a::nat)"
  by (induction xs arbitrary: a) (auto intro: order_trans[OF max.cobounded2])

lemma fold_max_mem: "x \<in> set xs \<Longrightarrow> x \<le> fold max xs (a::nat)"
proof (induction xs arbitrary: a)
  case Nil then show ?case by simp
next
  case (Cons y ys)
  show ?case
  proof (cases "x = y")
    case True
    have "x \<le> max y a" using True by simp
    also have "\<dots> \<le> fold max ys (max y a)" by (rule fold_max_ge)
    finally show ?thesis by simp
  next
    case False
    with Cons show ?thesis by simp
  qed
qed

lemma length_le_max_len: "xs \<in> set xss \<Longrightarrow> length xs \<le> max_len xss"
  unfolding max_len_def by (rule fold_max_mem) simp

lemma length_pad_sequence [simp]: "length (pad_sequence xss) = length xss"
  by (simp add: pad_sequence_def)

lemma pad_sequence_nth:
  "i < length xss \<Longrightarrow> pad_sequence xss ! i = xss ! i @ replicate (max_len xss - length (xss ! i)) 0"
  by (simp add: pad_sequence_def)

lemma length_pad_sequence_nth:
  "i < length xss \<Longrightarrow> length (pad_sequence xss ! i) = max_len xss"
  using length_le_max_len[of "xss ! i" xss] by (simp add: pad_sequence_nth)

lemma pad_sequence_real: 
  "i < length xss \<Longrightarrow> j < length (xss ! i) \<Longrightarrow> pad_sequence xss ! i ! j = xss ! i ! j"
  by (simp add: pad_sequence_nth nth_append)

lemma pad_sequence_padded: 
  "i < length xss \<Longrightarrow> length (xss ! i) \<le> j \<Longrightarrow> j < max_len xss \<Longrightarrow> pad_sequence xss ! i ! j = 0"
  by (simp add: pad_sequence_nth nth_append)

lemma same_shape_mask_zero: "same_shape idx w \<Longrightarrow> same_shape idx (mask_zero idx w)"
proof -
  assume a: "same_shape idx w"
  then have len: "length w = length idx" by (rule same_shape_length)
  have "map length (mask_zero idx w) = map length idx"
  proof (rule nth_equalityI)
    show "length (map length (mask_zero idx w)) = length (map length idx)"
      using len by (simp add: mask_zero_def)
  next
    fix i assume "i < length (map length (mask_zero idx w))"
    then have i: "i < length idx" using len by (simp add: mask_zero_def)
    with same_shape_nth[OF a i] len
    show "map length (mask_zero idx w) ! i = map length idx ! i"
      by (simp add: mask_zero_def)
  qed
  then show ?thesis by (simp add: same_shape_def)
qed

lemma mask_zero_nth:
  assumes "same_shape idx w" "i < length idx" "j < length (idx ! i)"
  shows "mask_zero idx w ! i ! j = (if idx ! i ! j = 0 then 0 else w ! i ! j)"
  using assms(2,3) same_shape_length[OF assms(1)] same_shape_nth[OF assms(1,2)]
  by (simp add: mask_zero_def)

lemma Op_init_fields:
  assumes "Op_init imap ini seed h ns = Inr (self, h')"
  shows "ns \<noteq> []" "h' = set_assigned ns h" "nodes self = ns"
    "input_indices self =
       pad_sequence (map (\<lambda>n. map (\<lambda>inp. tape_index (h inp)) (inputs (h n))) ns)"
    "output_indices self = map (\<lambda>n. tape_index (h n)) ns"
    "unique_input_indices self = remdups (concat (input_indices self))"
    "inverse_input_indices self =
       map (map (index_of (unique_input_indices self))) (input_indices self)"
    "\<exists>w. same_shape (input_indices self) w \<and> weights self = mask_zero (input_indices self) w"
    "bias self = replicate (length ns) 0"
    "activation_index_map self = build_activation_index_map h' ns 0 []"
  using assms
  by (auto simp: Op_init_def Let_def torch_unique_def split: if_splits option.splits)

subsection \<open>Op.forward: shape and frame\<close>

lemma forward_InrD:
  assumes "forward amap self t = Inr t'"
  shows "in_range (unique_input_indices self) t" "shapes_ok self"
    "in_range (output_indices self) t"
    "\<exists>x6. apply_activations amap (activation_index_map self) (pre_activation self t) = Inr x6
          \<and> t' = map2 (\<lambda>row xr. index_put row (output_indices self) xr) t x6"
  using assms
  by (auto simp: forward_def pre_activation_def Let_def split: if_splits sum.splits)

lemma forward_InrI:
  assumes "in_range (unique_input_indices self) t" "shapes_ok self"
    "in_range (output_indices self) t"
    "apply_activations amap (activation_index_map self) (pre_activation self t) = Inr x6"
  shows "forward amap self t = Inr (map2 (\<lambda>row xr. index_put row (output_indices self) xr) t x6)"
  using assms
  by (simp add: forward_def pre_activation_def Let_def)

lemma length_pre_activation [simp]: "length (pre_activation self t) = length t"
  by (simp add: pre_activation_def)

lemma pre_activation_nth:
  assumes "shapes_ok self" "b < length t"
  shows "length (pre_activation self t ! b) = length (inverse_input_indices self)"
    and "i < length (inverse_input_indices self)
           \<Longrightarrow> pre_activation self t ! b ! i = torch_sum (weighted self t ! b ! i) + bias self ! i"
proof -
  have ss: "same_shape (inverse_input_indices self) (weights self)"
    and lb: "length (bias self) = length (inverse_input_indices self)"
    using assms(1) by (simp_all add: shapes_ok_def)
  have lw: "length (weighted self t ! b) = length (inverse_input_indices self)"
    using length_weighted_nth[OF assms(2) ss] .
  show "length (pre_activation self t ! b) = length (inverse_input_indices self)"
    using assms(2) lw lb by (simp add: pre_activation_def)
  show "pre_activation self t ! b ! i = torch_sum (weighted self t ! b ! i) + bias self ! i"
    if "i < length (inverse_input_indices self)"
    using assms(2) lw lb that by (simp add: pre_activation_def)
qed

lemma forward_length:
  assumes "forward amap self t = Inr t'"
  shows "length t' = length t"
proof -
  from forward_InrD(4)[OF assms] obtain x6
    where a: "apply_activations amap (activation_index_map self) (pre_activation self t) = Inr x6"
      and t': "t' = map2 (\<lambda>row xr. index_put row (output_indices self) xr) t x6"
    by blast
  from apply_activations_length[OF a] t' show ?thesis by simp
qed

lemma forward_row:
  assumes "forward amap self t = Inr t'" "b < length t"
  shows "\<exists>x6. apply_activations amap (activation_index_map self) (pre_activation self t) = Inr x6
          \<and> t' ! b = index_put (t ! b) (output_indices self) (x6 ! b)"
proof -
  from forward_InrD(4)[OF assms(1)] obtain x6
    where a: "apply_activations amap (activation_index_map self) (pre_activation self t) = Inr x6"
      and t': "t' = map2 (\<lambda>row xr. index_put row (output_indices self) xr) t x6"
    by blast
  from apply_activations_length[OF a] have "length x6 = length t" by simp
  with t' assms(2) have "t' ! b = index_put (t ! b) (output_indices self) (x6 ! b)" by simp
  with a show ?thesis by blast
qed

lemma forward_frame:
  assumes "forward amap self t = Inr t'" "b < length t"
  shows "length (t' ! b) = length (t ! b)"
    and "k \<notin> set (output_indices self) \<Longrightarrow> t' ! b ! k = t ! b ! k"
proof -
  from forward_row[OF assms] obtain x6
    where t': "t' ! b = index_put (t ! b) (output_indices self) (x6 ! b)" by blast
  show "length (t' ! b) = length (t ! b)" using t' by simp
  show "t' ! b ! k = t ! b ! k" if "k \<notin> set (output_indices self)"
    using t' that by (simp add: index_put_other)
qed

subsection \<open>What Op.__init__ establishes\<close>

lemma same_shape_refl [simp]: "same_shape xss xss"
  by (simp add: same_shape_def)

lemma same_shape_trans: "same_shape xss yss \<Longrightarrow> same_shape yss zss \<Longrightarrow> same_shape xss zss"
  by (simp add: same_shape_def)

lemma same_shape_sym: "same_shape xss yss \<Longrightarrow> same_shape yss xss"
  by (simp add: same_shape_def)

lemma same_shape_map_map [simp]: "same_shape xss (map (map f) xss)"
  by (simp add: same_shape_def o_def)

lemma Op_init_shapes:
  assumes "Op_init imap ini seed h ns = Inr (self, h')"
  shows "length (input_indices self) = length ns"
    "same_shape (input_indices self) (inverse_input_indices self)"
    "same_shape (input_indices self) (weights self)"
    "length (bias self) = length ns"
    "length (output_indices self) = length ns"
  using Op_init_fields[OF assms] 
  by (auto simp: same_shape_mask_zero)

lemma Op_init_inverse_nth:
  assumes "Op_init imap ini seed h ns = Inr (self, h')"
    "i < length ns" "j < length (input_indices self ! i)"
  shows "inverse_input_indices self ! i ! j < length (unique_input_indices self)"
    "unique_input_indices self ! (inverse_input_indices self ! i ! j) = input_indices self ! i ! j"
proof -
  note f = Op_init_fields[OF assms(1)] and s = Op_init_shapes[OF assms(1)]
  have i: "i < length (input_indices self)" using assms(2) s(1) by simp
  have mem: "input_indices self ! i ! j \<in> set (unique_input_indices self)"
    using i assms(3) unfolding f(6) by (auto intro!: bexI[of _ "input_indices self ! i"])
  have inv: "inverse_input_indices self ! i ! j
               = index_of (unique_input_indices self) (input_indices self ! i ! j)"
    using i assms(3) by (subst f(7)) simp
  show "inverse_input_indices self ! i ! j < length (unique_input_indices self)"
    unfolding inv using mem by (rule index_of_less)
  show "unique_input_indices self ! (inverse_input_indices self ! i ! j) = input_indices self ! i ! j"
    unfolding inv using mem by (rule nth_index_of)
qed

lemma Op_init_params_shapes_ok:
  assumes "Op_init imap ini seed h ns = Inr (self, h')"
    and "same_shape (input_indices self) W" "length B = length ns"
  shows "shapes_ok (self\<lparr>weights := W, bias := B\<rparr>)"
proof -
  note s = Op_init_shapes[OF assms(1)]
  have li: "length (inverse_input_indices self) = length ns"
    using same_shape_length[OF s(2)] s(1) by simp
  have "k < length (unique_input_indices self)"
    if "ks \<in> set (inverse_input_indices self)" "k \<in> set ks" for ks k
  proof -
    from that(1) obtain i where i: "i < length ns" "ks = inverse_input_indices self ! i"
      using li by (auto simp: in_set_conv_nth)
    from that(2) i obtain j where j: "j < length (inverse_input_indices self ! i)"
      "k = inverse_input_indices self ! i ! j"
      by (auto simp: in_set_conv_nth)
    have "j < length (input_indices self ! i)"
      using same_shape_nth[OF s(2)] i(1) s(1) j(1) by simp
    from Op_init_inverse_nth(1)[OF assms(1) i(1) this] j(2) show ?thesis by simp
  qed
  then show ?thesis
    using s li assms(2,3) same_shape_trans[OF same_shape_sym[OF s(2)] assms(2)]
    by (simp add: shapes_ok_def)
qed


lemma Op_init_padded:
  assumes "Op_init imap ini seed h ns = Inr (self, h')"
    "i < length ns" "length (inputs (h (ns ! i))) \<le> j" "j < length (input_indices self ! i)"
  shows "input_indices self ! i ! j = 0" "weights self ! i ! j = 0"
proof -
  note f = Op_init_fields[OF assms(1)] and s = Op_init_shapes[OF assms(1)]
  let ?rows = "map (\<lambda>n. map (\<lambda>inp. tape_index (h inp)) (inputs (h n))) ns"
  have j: "j < max_len ?rows"
    using assms(2,4) length_pad_sequence_nth[of i ?rows] unfolding f(4) by simp
  show z: "input_indices self ! i ! j = 0"
    unfolding f(4) using assms(2,3) j by (intro pad_sequence_padded) simp_all
  from f(8) obtain w where w: "same_shape (input_indices self) w"
    "weights self = mask_zero (input_indices self) w" by blast
  have "i < length (input_indices self)" using assms(2) s(1) by simp
  from mask_zero_nth[OF w(1) this assms(4)] z w(2)
  show "weights self ! i ! j = 0" by simp
qed

lemma Op_init_real_slot:
  assumes "Op_init imap ini seed h ns = Inr (self, h')"
    "i < length ns" "j < length (inputs (h (ns ! i)))"
  shows "j < length (input_indices self ! i)"
    "input_indices self ! i ! j = tape_index (h (inputs (h (ns ! i)) ! j))"
proof -
  note f = Op_init_fields[OF assms(1)]
  let ?rows = "map (\<lambda>n. map (\<lambda>inp. tape_index (h inp)) (inputs (h n))) ns"
  have "length (?rows ! i) \<le> max_len ?rows"
    using assms(2) by (intro length_le_max_len) simp
  then show "j < length (input_indices self ! i)"
    using assms(2,3) length_pad_sequence_nth[of i ?rows] unfolding f(4) by simp
  show "input_indices self ! i ! j = tape_index (h (inputs (h (ns ! i)) ! j))"
    unfolding f(4) using assms(2,3) by (subst pad_sequence_real) simp_all
qed

subsection \<open>Op.forward: the values written\<close>

lemma Op_init_groups_ok:
  assumes "Op_init imap ini seed h ns = Inr (self, h')"
  shows "groups_ok h ns (activation_index_map self)"
proof -
  note f = Op_init_fields[OF assms]
  have 1: "groups_ok h' ns (activation_index_map self)"
    unfolding f(10) by (rule build_activation_index_map_ok)
  have "activation (h' n) = activation (h n)" for n
    unfolding f(2) by simp
  then have "groups_ok h' ns (activation_index_map self)
               = groups_ok h ns (activation_index_map self)"
    by (rule groups_ok_cong)
  then show ?thesis using 1 by (rule iffD1)
qed

lemma dict_append_nonempty:
  "\<forall>p \<in> set d. snd p \<noteq> [] \<Longrightarrow> \<forall>p \<in> set (dict_append d k v). snd p \<noteq> []"
  by (induction d k v rule: dict_append.induct) simp_all

lemma build_activation_index_map_nonempty:
  "\<forall>p \<in> set d. snd p \<noteq> []
     \<Longrightarrow> \<forall>p \<in> set (build_activation_index_map h ns i d). snd p \<noteq> []"
proof (induction ns arbitrary: i d)
  case Nil
  then show ?case by simp
next
  case (Cons n ns)
  from Cons.IH[OF dict_append_nonempty[OF Cons.prems]] show ?case by simp
qed

lemma Op_init_groups_nonempty:
  assumes "Op_init imap ini seed h ns = Inr (self, h')"
  shows "\<forall>p \<in> set (activation_index_map self). snd p \<noteq> []"
  unfolding Op_init_fields(10)[OF assms]
  by (rule build_activation_index_map_nonempty) simp

lemma groups_ok_member:
  assumes "groups_ok h ns d" "i < length ns"
  shows "\<exists>is. (activation (h (ns ! i)), is) \<in> set d \<and> i \<in> set is"
proof -
  from assms have "i \<in> set (dict_values d)" by (simp add: groups_ok_def)
  then obtain a "is" where m: "(a, is) \<in> set d" "i \<in> set is"
    by (auto simp: dict_values_def)
  with assms(1) have "activation (h (ns ! i)) = a" by (auto simp: groups_ok_def)
  with m show ?thesis by blast
qed

lemma forward_value:
  assumes run: "forward amap self t = Inr t'"
    and grp: "groups_ok h ns (activation_index_map self)"
    and len: "length (inverse_input_indices self) = length ns"
    and dist: "distinct (output_indices self)"
    and b: "b < length t" and i: "i < length ns"
  shows "\<exists>f. amap (activation (h (ns ! i))) = Some f
           \<and> t' ! b ! (output_indices self ! i)
               = f (torch_sum (weighted self t ! b ! i) + bias self ! i)"
proof -
  note d = forward_InrD[OF run]
  from forward_row[OF run b] obtain x6
    where a: "apply_activations amap (activation_index_map self) (pre_activation self t) = Inr x6"
      and t': "t' ! b = index_put (t ! b) (output_indices self) (x6 ! b)"
    by blast
  have lp: "length (pre_activation self t ! b) = length ns"
    using pre_activation_nth(1)[OF d(2) b] len by simp
  have lx: "length (x6 ! b) = length ns"
    using apply_activations_row_length[OF a] b lp by simp
  have lo: "length (output_indices self) = length ns"
    using d(2) len by (simp add: shapes_ok_def)
  from groups_ok_member[OF grp i] obtain "is"
    where m: "(activation (h (ns ! i)), is) \<in> set (activation_index_map self)" "i \<in> set is"
    by blast
  have "distinct (concat (map snd (activation_index_map self)))"
    using grp by (simp add: groups_ok_def dict_values_def)
  from apply_activations_value[OF a this, of b i] b i lp m
  obtain f where f: "amap (activation (h (ns ! i))) = Some f"
    "x6 ! b ! i = f (pre_activation self t ! b ! i)"
    by auto
  have "t ! b \<in> set t" using b by simp
  then have "output_indices self ! i < length (t ! b)"
    using d(3) i lo by (auto simp: in_range_def)
  then have "t' ! b ! (output_indices self ! i) = x6 ! b ! i"
    unfolding t' using dist i lo lx by (intro index_put_hit) simp_all
  also have "\<dots> = f (torch_sum (weighted self t ! b ! i) + bias self ! i)"
    using f(2) pre_activation_nth(2)[OF d(2) b, of i] i len by simp
  finally show ?thesis using f(1) by blast
qed

lemma apply_activations_succeeds:
  assumes "\<forall>(a, is) \<in> set d. amap a \<noteq> None \<and> (\<forall>i \<in> set is. i < n)"
    and "\<forall>row \<in> set x. length row = n"
  shows "\<exists>x'. apply_activations amap d x = Inr x'"
  using assms
proof (induction d arbitrary: x)
  case Nil
  then show ?case by simp
next
  case (Cons p d)
  obtain a "is" where p: "p = (a, is)" by (cases p)
  from Cons.prems(1) p obtain f where f: "amap a = Some f" and r: "\<forall>i \<in> set is. i < n"
    by auto
  have ir: "in_range is x"
    using r Cons.prems(2) by (auto simp: in_range_def)
  let ?y = "scatter1 x is (map (map f) (index_select1 x is))"
  have "\<forall>row \<in> set ?y. length row = n"
    using Cons.prems(2)
    by (auto simp: scatter1_def index_select1_def set_zip)
  moreover have "\<forall>(a, is) \<in> set d. amap a \<noteq> None \<and> (\<forall>i \<in> set is. i < n)"
    using Cons.prems(1) by simp
  ultimately obtain x' where "apply_activations amap d ?y = Inr x'"
    using Cons.IH by blast
  with p f ir show ?case by simp
qed

lemma forward_succeeds:
  assumes ok: "shapes_ok self"
    and grp: "groups_ok h ns (activation_index_map self)"
    and len: "length (inverse_input_indices self) = length ns"
    and ir: "in_range (unique_input_indices self) t" "in_range (output_indices self) t"
    and ne: "\<forall>p \<in> set (activation_index_map self). snd p \<noteq> []"
    and acts: "\<forall>n \<in> set ns. amap (activation (h n)) \<noteq> None"
  shows "\<exists>t'. forward amap self t = Inr t'"
proof -
  have 1: "\<forall>(a, is) \<in> set (activation_index_map self).
             amap a \<noteq> None \<and> (\<forall>i \<in> set is. i < length ns)"
  proof (rule ballI, rule case_prodI2, intro conjI ballI)
    fix p a "is" assume "p \<in> set (activation_index_map self)" "p = (a, is)"
    then have m: "(a, is) \<in> set (activation_index_map self)" by simp
    have lt: "i < length ns" if "i \<in> set is" for i
    proof -
      have "set is \<subseteq> set (dict_values (activation_index_map self))"
        unfolding dict_values_def using m by force
      with that have "i \<in> set (dict_values (activation_index_map self))" by (rule rev_subsetD)
      with grp show ?thesis by (simp add: groups_ok_def)
    qed
    from lt show "\<And>i. i \<in> set is \<Longrightarrow> i < length ns" .
    from bspec[OF ne m] have "is \<noteq> []" by simp
    then obtain i0 where i0: "i0 \<in> set is" by (cases "is") auto
    from grp have "\<forall>(a, is) \<in> set (activation_index_map self).
                     \<forall>i \<in> set is. activation (h (ns ! i)) = a"
      by (simp add: groups_ok_def)
    from bspec[OF this m] i0 have eq: "activation (h (ns ! i0)) = a" by simp
    have "ns ! i0 \<in> set ns" using lt[OF i0] by simp
    with acts have "amap (activation (h (ns ! i0))) \<noteq> None" by (rule bspec)
    then show "amap a \<noteq> None" unfolding eq .
  qed
  have 2: "\<forall>row \<in> set (pre_activation self t). length row = length ns"
    using pre_activation_nth(1)[OF ok] len by (auto simp: in_set_conv_nth)
  from apply_activations_succeeds[OF 1 2] obtain x6
    where "apply_activations amap (activation_index_map self) (pre_activation self t) = Inr x6"
    by blast
  from forward_InrI[OF ir(1) ok ir(2) this] show ?thesis by blast
qed

subsection \<open>The loop of construct\<close>

lemma construct_unfold:
  "construct imap fuel self h =
     (case construct_loop imap (initialization self) (start_map self h) fuel (start_state self h) of
        None \<Rightarrow> None
      | Some (Inl e) \<Rightarrow> Some (Inl e)
      | Some (Inr st) \<Rightarrow>
          Some (Inr (self\<lparr>ops := c_ops st,
                          model_outputs :=
                            sort_key (\<lambda>n. output_index (c_store st n)) (model_outputs self),
                          model_output_indices :=
                            map (\<lambda>n. tape_index (c_store st n))
                              (sort_key (\<lambda>n. output_index (c_store st n)) (model_outputs self))\<rparr>,
                     c_store st)))"
  by (simp add: construct_def start_map_def start_state_def Let_def
      split: prod.splits option.splits sum.splits)

lemma Model_init_unfold:
  "Model_init imap fuel g ini h =
     (case construct imap fuel (blank_model g ini) h of
        None \<Rightarrow> None
      | Some (Inl e) \<Rightarrow> Some (Inl e)
      | Some (Inr (self', h')) \<Rightarrow>
          Some (Inr (self'\<lparr>optimizer := None, loss_function := None\<rparr>, h')))"
  by (simp add: Model_init_def blank_model_def Let_def)

lemma Model_init_diverges:
  "construct_loop imap ini (start_map (blank_model g ini :: 'a model) h) fuel
       (start_state (blank_model g ini :: ('a::{zero,plus,times}) model) h) = None
     \<Longrightarrow> Model_init imap fuel g ini h = None"
  by (simp add: Model_init_unfold construct_unfold blank_model_def)

lemma construct_loop_0:
  "c_remaining st \<noteq> [] \<Longrightarrow> construct_loop imap ini idm 0 st = None"
  by simp

lemma construct_loop_Suc:
  "c_remaining st \<noteq> [] \<Longrightarrow> construct_round imap ini idm st = Inr st'
     \<Longrightarrow> construct_loop imap ini idm (Suc k) st = construct_loop imap ini idm k st'"
  by simp

lemma construct_loop_fuel_mono:
  "construct_loop imap ini idm fuel st = Some r
     \<Longrightarrow> construct_loop imap ini idm (fuel + k) st = Some r"
proof (induction fuel arbitrary: st)
  case 0
  then show ?case by (cases k) (simp_all split: if_splits)
next
  case (Suc fuel)
  show ?case
  proof (cases "c_remaining st = []")
    case True
    with Suc.prems show ?thesis by simp
  next
    case False
    show ?thesis
    proof (cases "construct_round imap ini idm st")
      case (Inl e)
      with False Suc.prems show ?thesis by auto
    next
      case (Inr st')
      with False Suc.prems have "construct_loop imap ini idm fuel st' = Some r" by simp
      from Suc.IH[OF this] False Inr show ?thesis by simp
    qed
  qed
qed

subsection \<open>The steps of a round\<close>

lemma rollback_le: "rollback h ns fails i \<le> i \<and> i - length ns \<le> rollback h ns fails i"
proof (induction ns arbitrary: i)
  case Nil
  then show ?case by simp
next
  case (Cons n ns)
  have a: "rollback h ns fails (i - 1) \<le> i - 1 \<and> i - 1 - length ns \<le> rollback h ns fails (i - 1)"
    and b: "rollback h ns fails i \<le> i \<and> i - length ns \<le> rollback h ns fails i"
    using Cons.IH by blast+
  show ?case
  proof (cases "op_id (h n) \<in> set fails")
    case True
    with a show ?thesis by simp arith
  next
    case False
    with b show ?thesis by simp arith
  qed
qed

lemma assign_inputs_spec:
  "assign_inputs ns h i = (h', i') \<Longrightarrow>
     i' = i + length ns
     \<and> (\<forall>n. (n \<notin> set ns \<longrightarrow> h' n = h n)
            \<and> (n \<in> set ns \<longrightarrow> i \<le> tape_index (h' n) \<and> tape_index (h' n) < i' \<and> assigned (h' n))
            \<and> inputs (h' n) = inputs (h n) \<and> op_id (h' n) = op_id (h n)
            \<and> activation (h' n) = activation (h n) \<and> output_index (h' n) = output_index (h n))"
proof (induction ns arbitrary: h i)
  case Nil
  then show ?case by simp
next
  case (Cons m ns)
  let ?h = "h(m := (h m)\<lparr>tape_index := i, assigned := True\<rparr>)"
  from Cons.prems have r: "assign_inputs ns ?h (i + 1) = (h', i')" by simp
  note ih = Cons.IH[OF r]
  from ih have len: "i' = i + length (m # ns)" by simp
  have "(n \<notin> set (m # ns) \<longrightarrow> h' n = h n)
        \<and> (n \<in> set (m # ns) \<longrightarrow> i \<le> tape_index (h' n) \<and> tape_index (h' n) < i' \<and> assigned (h' n))
        \<and> inputs (h' n) = inputs (h n) \<and> op_id (h' n) = op_id (h n)
        \<and> activation (h' n) = activation (h n) \<and> output_index (h' n) = output_index (h n)" for n
  proof -
    from ih have n: "(n \<notin> set ns \<longrightarrow> h' n = ?h n)"
      "(n \<in> set ns \<longrightarrow> i + 1 \<le> tape_index (h' n) \<and> tape_index (h' n) < i' \<and> assigned (h' n))"
      "inputs (h' n) = inputs (?h n)" "op_id (h' n) = op_id (?h n)"
      "activation (h' n) = activation (?h n)" "output_index (h' n) = output_index (?h n)"
      by blast+
    show ?thesis
    proof (cases "n \<in> set ns")
      case True
      with n show ?thesis by simp
    next
      case False
      with n(1) have e: "h' n = ?h n" by simp
      show ?thesis
      proof (cases "n = m")
        case True
        with e len show ?thesis by simp
      next
        case neq: False
        with e False show ?thesis by simp
      qed
    qed
  qed
  with len show ?case by blast
qed

lemma scan_spec:
  "scan ns h i acc = (h1, i1, opn) \<Longrightarrow>
     i1 + length acc = i + length opn \<and> i \<le> i1
     \<and> set acc \<subseteq> set opn \<and> set opn \<subseteq> set acc \<union> set ns
     \<and> (\<forall>n. (tape_index (h1 n) = tape_index (h n)
               \<or> (n \<in> set ns \<and> n \<in> set opn \<and> i \<le> tape_index (h1 n) \<and> tape_index (h1 n) < i1))
            \<and> (n \<in> set opn \<longrightarrow>
                  n \<in> set acc \<or> (i \<le> tape_index (h1 n) \<and> tape_index (h1 n) < i1))
            \<and> inputs (h1 n) = inputs (h n) \<and> op_id (h1 n) = op_id (h n)
            \<and> activation (h1 n) = activation (h n) \<and> output_index (h1 n) = output_index (h n)
            \<and> assigned (h1 n) = assigned (h n))"
proof (induction ns arbitrary: h i acc)
  case Nil
  then show ?case by simp
next
  case (Cons m ns)
  let ?h = "h(m := (h m)\<lparr>tape_index := i\<rparr>)"
  show ?case
  proof (cases "list_all (\<lambda>inp. assigned (h inp)) (inputs (h m))")
    case False
    with Cons.prems have r: "scan ns h i acc = (h1, i1, opn)" by simp
    note ih = Cons.IH[OF r]
    from ih have top: "i1 + length acc = i + length opn" "i \<le> i1" "set acc \<subseteq> set opn"
      "set opn \<subseteq> set acc \<union> set (m # ns)" by auto
    have "(tape_index (h1 n) = tape_index (h n)
               \<or> (n \<in> set (m # ns) \<and> n \<in> set opn \<and> i \<le> tape_index (h1 n) \<and> tape_index (h1 n) < i1))
            \<and> (n \<in> set opn \<longrightarrow>
                  n \<in> set acc \<or> (i \<le> tape_index (h1 n) \<and> tape_index (h1 n) < i1))
            \<and> inputs (h1 n) = inputs (h n) \<and> op_id (h1 n) = op_id (h n)
            \<and> activation (h1 n) = activation (h n) \<and> output_index (h1 n) = output_index (h n)
            \<and> assigned (h1 n) = assigned (h n)" for n
      using ih by (simp del: all_simps) blast
    with top show ?thesis by blast
  next
    case True
    with Cons.prems have r: "scan ns ?h (i + 1) (acc @ [m]) = (h1, i1, opn)" by simp
    note ih = Cons.IH[OF r]
    from ih have top: "i1 + length acc = i + length opn" "i \<le> i1" "set acc \<subseteq> set opn"
      "set opn \<subseteq> set acc \<union> set (m # ns)" "m \<in> set opn" "i + 1 \<le> i1" by auto
    have "(tape_index (h1 n) = tape_index (h n)
               \<or> (n \<in> set (m # ns) \<and> n \<in> set opn \<and> i \<le> tape_index (h1 n) \<and> tape_index (h1 n) < i1))
            \<and> (n \<in> set opn \<longrightarrow>
                  n \<in> set acc \<or> (i \<le> tape_index (h1 n) \<and> tape_index (h1 n) < i1))
            \<and> inputs (h1 n) = inputs (h n) \<and> op_id (h1 n) = op_id (h n)
            \<and> activation (h1 n) = activation (h n) \<and> output_index (h1 n) = output_index (h n)
            \<and> assigned (h1 n) = assigned (h n)" for n
    proof -
      from ih have n: "tape_index (h1 n) = tape_index (?h n)
               \<or> (n \<in> set ns \<and> n \<in> set opn \<and> i + 1 \<le> tape_index (h1 n) \<and> tape_index (h1 n) < i1)"
        "n \<in> set opn \<longrightarrow>
           n \<in> set (acc @ [m]) \<or> (i + 1 \<le> tape_index (h1 n) \<and> tape_index (h1 n) < i1)"
        "inputs (h1 n) = inputs (?h n)" "op_id (h1 n) = op_id (?h n)"
        "activation (h1 n) = activation (?h n)" "output_index (h1 n) = output_index (?h n)"
        "assigned (h1 n) = assigned (?h n)"
        by blast+
      show ?thesis
      proof (cases "n = m")
        case eq: True
        from n(1) eq top(5,6) have 1: "n \<in> set opn \<and> i \<le> tape_index (h1 n) \<and> tape_index (h1 n) < i1"
          by auto
        with n(3-7) eq show ?thesis by simp
      next
        case False
        with n show ?thesis by auto
      qed
    qed
    with top(1-4) show ?thesis by blast
  qed
qed

subsection \<open>An invariant of the loop of construct\<close>

lemma remove_nodes_spec:
  "remove_nodes ns rem = Inr rem2 \<Longrightarrow>
     set rem2 \<subseteq> set rem \<and> (\<forall>n \<in> set rem. n \<notin> set rem2 \<longrightarrow> n \<in> set ns)
     \<and> length rem2 + length ns = length rem"
proof (induction ns arbitrary: rem)
  case Nil
  then show ?case by simp
next
  case (Cons m ns)
  from Cons.prems have m: "m \<in> set rem" and r: "remove_nodes ns (remove1 m rem) = Inr rem2"
    by (auto split: if_splits)
  note ih = Cons.IH[OF r]
  have 1: "set rem2 \<subseteq> set rem" using ih set_remove1_subset[of m rem] by blast
  have 2: "\<forall>n \<in> set rem. n \<notin> set rem2 \<longrightarrow> n \<in> set (m # ns)"
  proof (intro ballI impI)
    fix n assume n: "n \<in> set rem" "n \<notin> set rem2"
    show "n \<in> set (m # ns)"
    proof (cases "n = m")
      case True then show ?thesis by simp
    next
      case False
      with n(1) have "n \<in> set (remove1 m rem)" by simp
      with ih n(2) show ?thesis by simp
    qed
  qed
  have 3: "length rem2 + length (m # ns) = length rem"
    using ih m by (simp add: length_remove1) (metis One_nat_def Suc_pred length_pos_if_in_set)
  from 1 2 3 show ?case by blast
qed

lemma construct_round_cases:
  assumes "construct_round imap ini idm st = Inr st'"
  obtains h1 i1 opn fails opn2
  where "scan (c_remaining st) (c_store st) (c_i st) [] = (h1, i1, opn)"
    and "check_op_ids h1 idm opn opn (c_fails st) = Inr (Some fails)"
    and "opn2 = (if fails \<noteq> [] then filter (\<lambda>n. op_id (h1 n) \<notin> set fails) opn else opn)"
    and "remove_nodes opn2 (c_remaining st) = Inr (c_remaining st')"
    and "c_i st' = (if fails \<noteq> [] then rollback h1 opn fails i1 else i1)"
    and "c_fails st' = Some fails"
    and "opn2 = [] \<Longrightarrow> c_store st' = h1 \<and> c_ops st' = c_ops st"
    and "opn2 \<noteq> [] \<Longrightarrow> \<exists>new_op. Op_init imap ini (length (c_ops st)) h1 opn2 = Inr (new_op, c_store st')
                         \<and> c_ops st' = c_ops st @ [new_op]"
proof -
  obtain h1 i1 opn where sc: "scan (c_remaining st) (c_store st) (c_i st) [] = (h1, i1, opn)"
    by (cases "scan (c_remaining st) (c_store st) (c_i st) []") auto
  from assms sc obtain fails where ch: "check_op_ids h1 idm opn opn (c_fails st) = Inr (Some fails)"
    by (auto simp: construct_round_def split: sum.splits option.splits)
  define opn2 where "opn2 = (if fails \<noteq> [] then filter (\<lambda>n. op_id (h1 n) \<notin> set fails) opn else opn)"
  define i2 where "i2 = (if fails \<noteq> [] then rollback h1 opn fails i1 else i1)"
  from assms sc ch obtain rem2 where rm: "remove_nodes opn2 (c_remaining st) = Inr rem2"
    unfolding construct_round_def opn2_def
    by (simp add: Let_def split: sum.splits)
  have res: "(if opn2 \<noteq> []
          then (case Op_init imap ini (length (c_ops st)) h1 opn2 of
                  Inl e \<Rightarrow> Inl e
                | Inr (new_op, h2) \<Rightarrow>
                    Inr \<lparr>c_store = h2, c_i = i2, c_remaining = rem2,
                         c_ops = c_ops st @ [new_op], c_fails = Some fails\<rparr>)
          else Inr \<lparr>c_store = h1, c_i = i2, c_remaining = rem2,
                    c_ops = c_ops st, c_fails = Some fails\<rparr>) = Inr st'"
    using assms sc ch rm unfolding construct_round_def opn2_def i2_def
    by (simp add: Let_def)
  have rem: "c_remaining st' = rem2" and i: "c_i st' = i2" and f: "c_fails st' = Some fails"
    using res by (auto split: if_splits sum.splits prod.splits)
  have e: "c_store st' = h1 \<and> c_ops st' = c_ops st" if "opn2 = []"
    using res that by auto
  have ne: "\<exists>new_op. Op_init imap ini (length (c_ops st)) h1 opn2 = Inr (new_op, c_store st')
                         \<and> c_ops st' = c_ops st @ [new_op]" if "opn2 \<noteq> []"
    using res that by (auto split: sum.splits prod.splits)
  show thesis
    using that[OF sc ch opn2_def _ _ f e ne] rm rem i i2_def by simp
qed

lemma construct_round_inv:
  assumes inv: "index_inv S st" and r: "construct_round imap ini idm st = Inr st'"
  shows "index_inv S st'"
proof -
  from r obtain h1 i1 opn fails opn2
    where sc: "scan (c_remaining st) (c_store st) (c_i st) [] = (h1, i1, opn)"
      and ch: "check_op_ids h1 idm opn opn (c_fails st) = Inr (Some fails)"
      and opn2: "opn2 = (if fails \<noteq> [] then filter (\<lambda>n. op_id (h1 n) \<notin> set fails) opn else opn)"
      and rm: "remove_nodes opn2 (c_remaining st) = Inr (c_remaining st')"
      and i: "c_i st' = (if fails \<noteq> [] then rollback h1 opn fails i1 else i1)"
      and f: "c_fails st' = Some fails"
      and e: "opn2 = [] \<Longrightarrow> c_store st' = h1 \<and> c_ops st' = c_ops st"
      and ne: "opn2 \<noteq> [] \<Longrightarrow> \<exists>new_op. Op_init imap ini (length (c_ops st)) h1 opn2 = Inr (new_op, c_store st')
                         \<and> c_ops st' = c_ops st @ [new_op]"
    by (rule construct_round_cases) blast
  note s = scan_spec[OF sc]
  from inv have i0: "1 \<le> c_i st"
    and ops0: "\<forall>p \<in> set (c_ops st). 0 \<notin> set (output_indices p)"
    and idx0: "\<forall>n \<in> S. n \<notin> set (c_remaining st) \<longrightarrow> 1 \<le> tape_index (c_store st n)"
    by (simp_all add: index_inv_def)
  have i1: "i1 = c_i st + length opn" using s by simp
  have sub2: "set opn2 \<subseteq> set opn" unfolding opn2 by auto
  have opn_idx: "1 \<le> tape_index (h1 n)" if "n \<in> set opn" for n
    using s that i0 by fastforce
  have h1_keep: "1 \<le> tape_index (h1 n)" if "1 \<le> tape_index (c_store st n)" for n
    using s that i0 by (metis le_trans)
  have ti: "tape_index (c_store st' n) = tape_index (h1 n)" for n
  proof (cases "opn2 = []")
    case True
    with e show ?thesis by simp
  next
    case False
    from ne[OF False] obtain new_op
      where "Op_init imap ini (length (c_ops st)) h1 opn2 = Inr (new_op, c_store st')" by blast
    from Op_init_fields(2)[OF this] show ?thesis by simp
  qed
  have 1: "1 \<le> c_i st'"
  proof (cases "fails \<noteq> []")
    case True
    with i rollback_le[of h1 opn fails i1] i1 i0 show ?thesis by simp
  next
    case False
    with i i1 i0 show ?thesis by simp
  qed
  have 2: "\<forall>p \<in> set (c_ops st'). 0 \<notin> set (output_indices p)"
  proof (cases "opn2 = []")
    case True
    with e ops0 show ?thesis by simp
  next
    case False
    from ne[OF False] obtain new_op
      where o: "Op_init imap ini (length (c_ops st)) h1 opn2 = Inr (new_op, c_store st')"
        and ops: "c_ops st' = c_ops st @ [new_op]" by blast
    have "0 \<notin> set (output_indices new_op)"
      unfolding Op_init_fields(5)[OF o] using opn_idx sub2 by fastforce
    with ops ops0 show ?thesis by simp
  qed
  have 3: "\<forall>n \<in> S. n \<notin> set (c_remaining st') \<longrightarrow> 1 \<le> tape_index (c_store st' n)"
  proof (intro ballI impI)
    fix n assume n: "n \<in> S" "n \<notin> set (c_remaining st')"
    show "1 \<le> tape_index (c_store st' n)"
    proof (cases "n \<in> set (c_remaining st)")
      case False
      with idx0 n(1) have "1 \<le> tape_index (c_store st n)" by simp
      from h1_keep[OF this] ti show ?thesis by simp
    next
      case True
      with remove_nodes_spec[OF rm] n(2) have "n \<in> set opn2" by blast
      with sub2 have "n \<in> set opn" by blast
      from opn_idx[OF this] ti show ?thesis by simp
    qed
  qed
  from 1 2 3 show ?thesis by (simp add: index_inv_def)
qed

lemma construct_loop_inv:
  "index_inv S st \<Longrightarrow> construct_loop imap ini idm fuel st = Some (Inr st')
     \<Longrightarrow> index_inv S st' \<and> c_remaining st' = []"
proof (induction fuel arbitrary: st)
  case 0
  then show ?case by (simp split: if_splits)
next
  case (Suc fuel)
  show ?case
  proof (cases "c_remaining st = []")
    case True
    with Suc.prems show ?thesis by simp
  next
    case False
    with Suc.prems(2) obtain st1 where r: "construct_round imap ini idm st = Inr st1"
      and l: "construct_loop imap ini idm fuel st1 = Some (Inr st')"
      by (auto split: sum.splits)
    from Suc.IH[OF construct_round_inv[OF Suc.prems(1) r] l] show ?thesis .
  qed
qed

subsection \<open>The steps of Model.forward\<close>

lemma graph6_model:
  "\<exists>h. Model_init he_only 1 graph6 ''he'' store6 = Some (Inr (model6, h))"
proof -
  have "case Model_init he_only 1 graph6 ''he'' store6 of
          Some (Inr (m, h)) \<Rightarrow> m = model6 | _ \<Rightarrow> False"
    by code_simp
  then show ?thesis by (auto split: option.splits sum.splits)
qed

lemma apply_activations_errors:
  "apply_activations amap d x = Inl e \<Longrightarrow> e = KeyError \<or> e = RuntimeError"
proof (induction d arbitrary: x)
  case Nil
  then show ?case by simp
next
  case (Cons p d)
  obtain a "is" where p: "p = (a, is)" by (cases p)
  from Cons.prems p Cons.IH show ?case
    by (auto split: option.splits if_splits)
qed

lemma forward_errors:
  "forward amap p t = Inl e \<Longrightarrow> e = IndexError \<or> e = RuntimeError \<or> e = KeyError"
  by (auto simp: forward_def Let_def split: if_splits sum.splits dest: apply_activations_errors)

lemma run_ops_errors:
  "run_ops amap ps t = (Some e, t') \<Longrightarrow> e = IndexError \<or> e = RuntimeError \<or> e = KeyError"
proof (induction ps arbitrary: t)
  case Nil
  then show ?case by simp
next
  case (Cons p ps)
  show ?case
  proof (cases "forward amap p t")
    case (Inl e')
    with Cons.prems forward_errors[OF Inl] show ?thesis by auto
  next
    case (Inr t1)
    with Cons.prems Cons.IH show ?thesis by auto
  qed
qed

lemma run_ops_length:
  "run_ops amap ps t = (r, t') \<Longrightarrow> length t' = length t"
proof (induction ps arbitrary: t)
  case Nil
  then show ?case by simp
next
  case (Cons p ps)
  show ?case
  proof (cases "forward amap p t")
    case (Inl e')
    with Cons.prems show ?thesis by auto
  next
    case (Inr t1)
    with Cons.prems have "run_ops amap ps t1 = (r, t')" by simp
    from Cons.IH[OF this] forward_length[OF Inr] show ?thesis by simp
  qed
qed

lemma length_initial_tape:
  "initial_tape self n = (reused, t0) \<Longrightarrow> length t0 = n"
  by (auto simp: initial_tape_def split: option.splits if_splits)

lemma write_inputs_length:
  "write_inputs n t x = Inr t1 \<Longrightarrow> length t1 = min (length t) (length x)"
  by (auto simp: write_inputs_def split: if_splits)

lemma length_rows_of [simp]: "length (rows_of x) = shape x ! 0"
  by (simp add: rows_of_def)

lemma Model_forward_promote:
  "length (shape x) = 1 \<Longrightarrow>
     Model_forward amap backward self x og
       = Model_forward amap backward self (x\<lparr>shape := 1 # shape x\<rparr>) og"
  by (simp add: Model_forward_def)

lemma Model_forward_rank2_cases:
  assumes "length (shape x) = 2"
  obtains (wfail) reused t0 e where "initial_tape self (shape x ! 0) = (reused, t0)"
      "write_inputs (input_size self) t0 (rows_of x) = Inl e"
      "Model_forward amap backward self x og = (Inl e, if reused then self\<lparr>tape := Some t0\<rparr> else self)"
  | (opfail) reused t0 t1 e t2 where "initial_tape self (shape x ! 0) = (reused, t0)"
      "write_inputs (input_size self) t0 (rows_of x) = Inr t1"
      "run_ops amap (ops self) t1 = (Some e, t2)"
      "Model_forward amap backward self x og = (Inl e, if reused then self\<lparr>tape := Some t2\<rparr> else self)"
  | (ifail) reused t0 t1 t2 where "initial_tape self (shape x ! 0) = (reused, t0)"
      "write_inputs (input_size self) t0 (rows_of x) = Inr t1"
      "run_ops amap (ops self) t1 = (None, t2)"
      "\<not> in_range (model_output_indices self) t2"
      "Model_forward amap backward self x og = (Inl IndexError, self\<lparr>tape := Some t2\<rparr>)"
  | (bfail) reused t0 t1 t2 e where "initial_tape self (shape x ! 0) = (reused, t0)"
      "write_inputs (input_size self) t0 (rows_of x) = Inr t1"
      "run_ops amap (ops self) t1 = (None, t2)"
      "in_range (model_output_indices self) t2" "og"
      "backward (index_select1 t2 (model_output_indices self)) = Some e"
      "Model_forward amap backward self x og = (Inl e, self\<lparr>tape := Some t2\<rparr>)"
  | (ok) reused t0 t1 t2 where "initial_tape self (shape x ! 0) = (reused, t0)"
      "write_inputs (input_size self) t0 (rows_of x) = Inr t1"
      "run_ops amap (ops self) t1 = (None, t2)"
      "in_range (model_output_indices self) t2"
      "og \<longrightarrow> backward (index_select1 t2 (model_output_indices self)) = None"
      "Model_forward amap backward self x og
         = (Inr (index_select1 t2 (model_output_indices self)), self\<lparr>tape := Some t2\<rparr>)"
proof -
  obtain reused t0 where it: "initial_tape self (shape x ! 0) = (reused, t0)"
    by (cases "initial_tape self (shape x ! 0)") auto
  show thesis
  proof (cases "write_inputs (input_size self) t0 (rows_of x)")
    case (Inl e)
    with assms it have "Model_forward amap backward self x og
        = (Inl e, if reused then self\<lparr>tape := Some t0\<rparr> else self)"
      by (simp add: Model_forward_def Let_def)
    with it Inl show ?thesis by (rule wfail)
  next
    case (Inr t1)
    obtain r t2 where ro: "run_ops amap (ops self) t1 = (r, t2)"
      by (cases "run_ops amap (ops self) t1") auto
    show ?thesis
    proof (cases r)
      case (Some e)
      with assms it Inr ro have "Model_forward amap backward self x og
          = (Inl e, if reused then self\<lparr>tape := Some t2\<rparr> else self)"
        by (simp add: Model_forward_def Let_def)
      with it Inr ro Some show ?thesis using opfail by blast
    next
      case None
      show ?thesis
      proof (cases "in_range (model_output_indices self) t2")
        case False
        with assms it Inr ro None have "Model_forward amap backward self x og
            = (Inl IndexError, self\<lparr>tape := Some t2\<rparr>)"
          by (simp add: Model_forward_def Let_def)
        with it Inr ro None False show ?thesis using ifail by blast
      next
        case True
        show ?thesis
        proof (cases "og \<and> backward (index_select1 t2 (model_output_indices self)) \<noteq> None")
          case True2: True
          then obtain e where e: "og" "backward (index_select1 t2 (model_output_indices self)) = Some e"
            by auto
          with assms it Inr ro None True have "Model_forward amap backward self x og
              = (Inl e, self\<lparr>tape := Some t2\<rparr>)"
            by (simp add: Model_forward_def Let_def)
          with it Inr ro None True e show ?thesis using bfail by blast
        next
          case False
          then have b: "og \<longrightarrow> backward (index_select1 t2 (model_output_indices self)) = None"
            by auto
          with assms it Inr ro None True have "Model_forward amap backward self x og
              = (Inr (index_select1 t2 (model_output_indices self)), self\<lparr>tape := Some t2\<rparr>)"
            by (auto simp: Model_forward_def Let_def)
          with it Inr ro None True b show ?thesis using ok by blast
        qed
      qed
    qed
  qed
qed

lemma Model_init_fields:
  assumes "Model_init imap fuel g ini h = Some (Inr (m, h'))"
  shows "\<exists>st. construct_loop imap ini (start_map (blank_model g ini :: 'a model) h) fuel
                (start_state (blank_model g ini :: ('a::{zero,plus,times}) model) h) = Some (Inr st)
            \<and> h' = c_store st \<and> ops m = c_ops st"
    and "tape m = None"
    and "tape_size m = length (input_nodes g @ hidden_nodes g @ output_nodes g) + 1"
    and "input_size m = length (input_nodes g)"
    and "output_size m = length (output_nodes g)"
    and "model_output_indices m
           = map (\<lambda>n. tape_index (h' n)) (sort_key (\<lambda>n. output_index (h' n)) (output_nodes g))"
    and "optimizer m = None"
  using assms
  by (auto simp: Model_init_unfold construct_unfold blank_model_def
      split: option.splits sum.splits prod.splits)

lemma length_index_select1 [simp]: "length (index_select1 t idx) = length t"
  by (simp add: index_select1_def)

lemma index_select1_row_length:
  "row \<in> set (index_select1 t idx) \<Longrightarrow> length row = length idx"
  by (auto simp: index_select1_def)

lemma Model_forward_errors:
  assumes "length (shape x) = 2" "\<not> og"
  shows "fst (Model_forward amap backward self x og) \<noteq> Inl AssertionError"
  using assms(1)
proof (cases rule: Model_forward_rank2_cases[where self=self and amap=amap and backward=backward and og=og])
  case (wfail reused t0 e)
  then have "e = RuntimeError" by (auto simp: write_inputs_def split: if_splits)
  with wfail show ?thesis by simp
next
  case (opfail reused t0 t1 e t2)
  from run_ops_errors[OF opfail(3)] opfail(4) show ?thesis by auto
next
  case (ifail reused t0 t1 t2)
  then show ?thesis by simp
next
  case (bfail reused t0 t1 t2 e)
  with assms show ?thesis by simp
next
  case (ok reused t0 t1 t2)
  then show ?thesis by simp
qed

lemma Model_forward_shape2:
  assumes "length (shape x) = 2" "Model_forward amap backward self x og = (Inr out, self')"
  shows "length out = shape x ! 0 \<and> (\<forall>row \<in> set out. length row = length (model_output_indices self))"
  using assms(1)
proof (cases rule: Model_forward_rank2_cases[where self=self and amap=amap and backward=backward and og=og])
  case (wfail reused t0 e)
  with assms show ?thesis by simp
next
  case (opfail reused t0 t1 e t2)
  with assms show ?thesis by simp
next
  case (ifail reused t0 t1 t2)
  with assms show ?thesis by simp
next
  case (bfail reused t0 t1 t2 e)
  with assms show ?thesis by simp
next
  case (ok reused t0 t1 t2)
  from length_initial_tape[OF ok(1)] write_inputs_length[OF ok(2)] run_ops_length[OF ok(3)]
  have "length t2 = shape x ! 0" by simp
  moreover from ok(6) assms(2) have "out = index_select1 t2 (model_output_indices self)" by simp
  ultimately show ?thesis by (auto dest: index_select1_row_length)
qed

lemma model6_run:
  "Model_forward acts no_raise model6 \<lparr>shape = [2, 2], data = [1, 2, - 3, 4]\<rparr> False
     = (Inr [[2, 3], [4, 1]], model6\<lparr>tape := Some [[0, 1, 2, 3, 2], [0, - 3, 4, 1, 4]]\<rparr>)"
  by code_simp

lemma model6_run1:
  "Model_forward acts no_raise model6 \<lparr>shape = [1, 2], data = [1, 2]\<rparr> False
     = (Inr [[2, 3]], model6\<lparr>tape := Some [[0, 1, 2, 3, 2]]\<rparr>)"
  by code_simp

subsection \<open>Position 0 of the tape\<close>

lemma start_state_inv:
  "index_inv (set (model_inputs self @ model_hidden self @ model_outputs self)) (start_state self h)"
proof -
  obtain h0 i0 where a: "assign_inputs (model_inputs self) h 1 = (h0, i0)"
    by (cases "assign_inputs (model_inputs self) h 1") auto
  from assign_inputs_spec[OF a]
  have i0: "i0 = 1 + length (model_inputs self)"
    and n: "\<And>n. n \<in> set (model_inputs self) \<Longrightarrow> 1 \<le> tape_index (h0 n)"
    by auto
  from a i0 n show ?thesis
    by (auto simp: index_inv_def start_state_def)
qed

lemma Model_init_index_inv:
  fixes m :: "('a::{zero,plus,times}) model"
  assumes "Model_init imap fuel g ini h = Some (Inr (m, h'))"
  shows "\<forall>n \<in> set (input_nodes g @ hidden_nodes g @ output_nodes g). 1 \<le> tape_index (h' n)"
    and "\<forall>p \<in> set (ops m). 0 \<notin> set (output_indices p)"
proof -
  let ?b = "blank_model g ini :: 'a model"
  from Model_init_fields(1)[OF assms] obtain st
    where l: "construct_loop imap ini (start_map ?b h) fuel (start_state ?b h) = Some (Inr st)"
      and h': "h' = c_store st" and o: "ops m = c_ops st" by blast
  have "index_inv (set (model_inputs ?b @ model_hidden ?b @ model_outputs ?b)) (start_state ?b h)"
    by (rule start_state_inv)
  from construct_loop_inv[OF this l]
  have inv: "index_inv (set (input_nodes g @ hidden_nodes g @ output_nodes g)) st"
    and e: "c_remaining st = []"
    by (simp_all add: blank_model_def)
  from inv e h' show "\<forall>n \<in> set (input_nodes g @ hidden_nodes g @ output_nodes g). 1 \<le> tape_index (h' n)"
    unfolding index_inv_def by simp
  from inv o show "\<forall>p \<in> set (ops m). 0 \<notin> set (output_indices p)"
    unfolding index_inv_def by simp
qed

lemma Model_init_reserves_index0:
  assumes "Model_init imap fuel g ini h = Some (Inr (m, h'))"
  shows "reserves_index0 m"
  using Model_init_index_inv(2)[OF assms] Model_init_fields(2,3)[OF assms]
  by (simp add: reserves_index0_def)

lemma zero_at_0_initial_tape:
  assumes "reserves_index0 self" "initial_tape self n = (reused, t0)"
  shows "zero_at_0 t0"
proof (cases "tape self")
  case None
  with assms show ?thesis
    by (auto simp: initial_tape_def reserves_index0_def zero_at_0_def)
next
  case (Some c)
  with assms(1) have ne: "\<forall>row \<in> set c. row \<noteq> []" by (simp add: reserves_index0_def)
  show ?thesis
  proof (cases "length c = n")
    case True
    with Some assms(2) have "t0 = map (map (\<lambda>_. 0)) c" by (simp add: initial_tape_def)
    with ne show ?thesis by (auto simp: zero_at_0_def)
  next
    case False
    with Some assms show ?thesis
      by (auto simp: initial_tape_def reserves_index0_def zero_at_0_def)
  qed
qed

lemma length_write_row:
  "row \<noteq> [] \<Longrightarrow> length xr = slice_len n row \<or> length xr = 1
     \<Longrightarrow> length (write_row n row xr) = length row"
  by (cases row) (auto simp: write_row_def slice_len_def)

lemma write_row_frame:
  assumes "k < length row" "k = 0 \<or> n < k"
  shows "write_row n row xr ! k = row ! k"
proof (cases "k = 0")
  case True
  with assms(1) show ?thesis by (cases row) (auto simp: write_row_def)
next
  case False
  with assms have nk: "n < k" by simp
  with assms(1) have sl: "slice_len n row = n" by (simp add: slice_len_def)
  from assms(1) obtain r rs where row: "row = r # rs" by (cases row) auto
  define mid where "mid = (if length xr = slice_len n row then xr
                           else replicate (slice_len n row) (hd xr))"
  have lm: "length mid = n" using sl by (simp add: mid_def)
  have "write_row n row xr = take 1 row @ mid @ drop (slice_len n row + 1) row"
    by (simp add: write_row_def mid_def)
  then have w: "write_row n row xr = r # (mid @ drop n rs)" using sl by (simp add: row)
  from nk obtain k' where k: "k = Suc k'" by (cases k) auto
  with nk lm have "(r # (mid @ drop n rs)) ! k = drop n rs ! (k' - n)"
    by (simp add: nth_append)
  also have "\<dots> = rs ! k'" using nk k assms(1) row by simp
  finally show ?thesis using w k row by simp
qed

lemma write_row_nonempty: "row \<noteq> [] \<Longrightarrow> write_row n row xr \<noteq> []"
  by (cases row) (auto simp: write_row_def)

lemma write_inputs_nth:
  assumes "write_inputs n t0 xs = Inr t1" "b < length t1"
  shows "t1 ! b = write_row n (t0 ! b) (xs ! b)" "b < length t0"
  using assms by (auto simp: write_inputs_def split: if_splits)

lemma write_inputs_frame:
  assumes "write_inputs n t0 xs = Inr t1" "b < length t1" "k < length (t0 ! b)" "k = 0 \<or> n < k"
  shows "t1 ! b ! k = t0 ! b ! k"
  using write_inputs_nth(1)[OF assms(1,2)] write_row_frame[OF assms(3,4)] by simp

lemma zero_at_0_write_inputs:
  assumes "zero_at_0 t0" "write_inputs n t0 xs = Inr t1"
  shows "zero_at_0 t1"
  unfolding zero_at_0_def
proof
  fix row assume "row \<in> set t1"
  then obtain b where b: "b < length t1" and row: "row = t1 ! b"
    by (auto simp: in_set_conv_nth)
  from write_inputs_nth[OF assms(2) b] have r: "row = write_row n (t0 ! b) (xs ! b)"
    and b0: "b < length t0" using row by simp_all
  from assms(1) b0 have z: "t0 ! b \<noteq> [] \<and> t0 ! b ! 0 = 0"
    by (auto simp: zero_at_0_def)
  then have "0 < length (t0 ! b)" by simp
  from write_row_frame[OF this, of n "xs ! b"] z r write_row_nonempty[of "t0 ! b" n "xs ! b"]
  show "row \<noteq> [] \<and> row ! 0 = 0" by simp
qed

lemma zero_at_0_forward:
  assumes "zero_at_0 t" "0 \<notin> set (output_indices p)" "forward amap p t = Inr t'"
  shows "zero_at_0 t'"
  unfolding zero_at_0_def
proof
  fix row assume "row \<in> set t'"
  then obtain b where b: "b < length t'" and row: "row = t' ! b"
    by (auto simp: in_set_conv_nth)
  from b forward_length[OF assms(3)] have bt: "b < length t" by simp
  from assms(1) bt have z: "t ! b \<noteq> [] \<and> t ! b ! 0 = 0" by (auto simp: zero_at_0_def)
  from forward_frame(1)[OF assms(3) bt] forward_frame(2)[OF assms(3) bt assms(2)] z row
  show "row \<noteq> [] \<and> row ! 0 = 0" by auto
qed

lemma zero_at_0_ops_trace:
  "zero_at_0 t \<Longrightarrow> \<forall>p \<in> set ps. 0 \<notin> set (output_indices p)
     \<Longrightarrow> \<forall>t' \<in> set (ops_trace amap ps t). zero_at_0 t'"
proof (induction ps arbitrary: t)
  case Nil
  then show ?case by simp
next
  case (Cons p ps)
  show ?case
  proof (cases "forward amap p t")
    case (Inl e)
    then show ?thesis by simp
  next
    case (Inr t1)
    from zero_at_0_forward[OF Cons.prems(1) _ Inr] Cons.prems(2) have z: "zero_at_0 t1" by simp
    from Cons.IH[OF z] Cons.prems(2) Inr z show ?thesis by simp
  qed
qed

lemma run_ops_trace:
  "run_ops amap ps t = (r, t') \<Longrightarrow> t' = last (t # ops_trace amap ps t)"
proof (induction ps arbitrary: t)
  case Nil
  then show ?case by simp
next
  case (Cons p ps)
  show ?case
  proof (cases "forward amap p t")
    case (Inl e)
    with Cons.prems show ?thesis by simp
  next
    case (Inr t1)
    with Cons.prems have "run_ops amap ps t1 = (r, t')" by simp
    from Cons.IH[OF this] Inr show ?thesis by simp
  qed
qed

lemma tape_trace_rank2:
  assumes "length (shape x) = 2" "initial_tape self (shape x ! 0) = (reused, t0)"
  shows "tape_trace amap self x
           = t0 # (case write_inputs (input_size self) t0 (rows_of x) of
                      Inl e \<Rightarrow> []
                    | Inr t1 \<Rightarrow> t1 # ops_trace amap (ops self) t1)"
  using assms by (simp add: tape_trace_def)

lemma tape_trace_promote:
  "length (shape x) = 1 \<Longrightarrow> tape_trace amap self x = tape_trace amap self (x\<lparr>shape := 1 # shape x\<rparr>)"
  by (simp add: tape_trace_def)

lemma tape_trace_other:
  "length (shape x) \<noteq> 1 \<Longrightarrow> length (shape x) \<noteq> 2 \<Longrightarrow> tape_trace amap self x = []"
  by (simp add: tape_trace_def)

lemma zero_at_0_tape_trace2:
  assumes r: "reserves_index0 self" and x: "length (shape x) = 2"
  shows "\<forall>t \<in> set (tape_trace amap self x). zero_at_0 t"
proof -
  obtain reused t0 where it: "initial_tape self (shape x ! 0) = (reused, t0)"
    by (cases "initial_tape self (shape x ! 0)") auto
  note z0 = zero_at_0_initial_tape[OF r it]
  show ?thesis
  proof (cases "write_inputs (input_size self) t0 (rows_of x)")
    case (Inl e)
    with tape_trace_rank2[OF x it, of amap] z0 show ?thesis by simp
  next
    case (Inr t1)
    note z1 = zero_at_0_write_inputs[OF z0 Inr]
    from r have "\<forall>p \<in> set (ops self). 0 \<notin> set (output_indices p)"
      by (simp add: reserves_index0_def)
    from zero_at_0_ops_trace[OF z1 this, of amap] z0 z1 tape_trace_rank2[OF x it, of amap] Inr
    show ?thesis by simp
  qed
qed

lemma zero_at_0_tape_trace:
  assumes r: "reserves_index0 self"
  shows "\<forall>t \<in> set (tape_trace amap self x). zero_at_0 t"
proof (cases "length (shape x) = 1")
  case True
  from zero_at_0_tape_trace2[OF r, of "x\<lparr>shape := 1 # shape x\<rparr>" amap] True
    tape_trace_promote[OF True, of amap self]
  show ?thesis by simp
next
  case False
  show ?thesis
  proof (cases "length (shape x) = 2")
    case True
    then show ?thesis by (rule zero_at_0_tape_trace2[OF r])
  next
    case False2: False
    from tape_trace_other[OF False False2] show ?thesis by simp
  qed
qed

lemma Model_forward_tape2:
  assumes x: "length (shape x) = 2"
  shows "snd (Model_forward amap backward self x og) = self
         \<or> (\<exists>t \<in> set (tape_trace amap self x).
               snd (Model_forward amap backward self x og) = self\<lparr>tape := Some t\<rparr>)"
    and "Model_forward amap backward self x og = (Inr out, self')
         \<Longrightarrow> self' = self\<lparr>tape := Some (last (tape_trace amap self x))\<rparr>
             \<and> out = index_select1 (last (tape_trace amap self x)) (model_output_indices self)"
proof -
  have "(snd (Model_forward amap backward self x og) = self
         \<or> (\<exists>t \<in> set (tape_trace amap self x).
               snd (Model_forward amap backward self x og) = self\<lparr>tape := Some t\<rparr>))
        \<and> (Model_forward amap backward self x og = (Inr out, self')
         \<longrightarrow> self' = self\<lparr>tape := Some (last (tape_trace amap self x))\<rparr>
             \<and> out = index_select1 (last (tape_trace amap self x)) (model_output_indices self))"
    using x
  proof (cases rule: Model_forward_rank2_cases[where self=self and amap=amap and backward=backward and og=og])
    case (wfail reused t0 e)
    with tape_trace_rank2[OF x wfail(1), of amap] show ?thesis by (cases reused) auto
  next
    case (opfail reused t0 t1 e t2)
    from run_ops_trace[OF opfail(3)] have "t2 \<in> set (t1 # ops_trace amap (ops self) t1)"
      using last_in_set[of "t1 # ops_trace amap (ops self) t1"] by simp
    with opfail tape_trace_rank2[OF x opfail(1), of amap] show ?thesis
      by (cases reused) auto
  next
    case (ifail reused t0 t1 t2)
    from run_ops_trace[OF ifail(3)] have "t2 \<in> set (t1 # ops_trace amap (ops self) t1)"
      using last_in_set[of "t1 # ops_trace amap (ops self) t1"] by simp
    with ifail tape_trace_rank2[OF x ifail(1), of amap] show ?thesis by auto
  next
    case (bfail reused t0 t1 t2 e)
    from run_ops_trace[OF bfail(3)] have "t2 \<in> set (t1 # ops_trace amap (ops self) t1)"
      using last_in_set[of "t1 # ops_trace amap (ops self) t1"] by simp
    with bfail tape_trace_rank2[OF x bfail(1), of amap] show ?thesis by auto
  next
    case (ok reused t0 t1 t2)
    from run_ops_trace[OF ok(3)] have l: "t2 = last (t1 # ops_trace amap (ops self) t1)" .
    then have "t2 \<in> set (t1 # ops_trace amap (ops self) t1)"
      using last_in_set[of "t1 # ops_trace amap (ops self) t1"] by simp
    with ok l tape_trace_rank2[OF x ok(1), of amap] show ?thesis by auto
  qed
  then show "snd (Model_forward amap backward self x og) = self
         \<or> (\<exists>t \<in> set (tape_trace amap self x).
               snd (Model_forward amap backward self x og) = self\<lparr>tape := Some t\<rparr>)"
    and "Model_forward amap backward self x og = (Inr out, self')
         \<Longrightarrow> self' = self\<lparr>tape := Some (last (tape_trace amap self x))\<rparr>
             \<and> out = index_select1 (last (tape_trace amap self x)) (model_output_indices self)"
    by simp_all
qed

lemma Model_forward_tape:
  shows "snd (Model_forward amap backward self x og) = self
         \<or> (\<exists>t \<in> set (tape_trace amap self x).
               snd (Model_forward amap backward self x og) = self\<lparr>tape := Some t\<rparr>)"
    and "Model_forward amap backward self x og = (Inr out, self')
         \<Longrightarrow> self' = self\<lparr>tape := Some (last (tape_trace amap self x))\<rparr>
             \<and> out = index_select1 (last (tape_trace amap self x)) (model_output_indices self)"
proof -
  have "(snd (Model_forward amap backward self x og) = self
         \<or> (\<exists>t \<in> set (tape_trace amap self x).
               snd (Model_forward amap backward self x og) = self\<lparr>tape := Some t\<rparr>))
        \<and> (Model_forward amap backward self x og = (Inr out, self')
         \<longrightarrow> self' = self\<lparr>tape := Some (last (tape_trace amap self x))\<rparr>
             \<and> out = index_select1 (last (tape_trace amap self x)) (model_output_indices self))"
  proof (cases "length (shape x) = 1")
    case True
    have "length (shape (x\<lparr>shape := 1 # shape x\<rparr>)) = 2" using True by simp
    from Model_forward_tape2(1)[OF this, where amap=amap and backward=backward and self=self and og=og]
      Model_forward_tape2(2)[OF this, where amap=amap and backward=backward and self=self and og=og
        and out=out and self'=self']
      Model_forward_promote[OF True, of amap backward self og]
      tape_trace_promote[OF True, of amap self]
    show ?thesis by simp
  next
    case False
    show ?thesis
    proof (cases "length (shape x) = 2")
      case True
      from Model_forward_tape2(1)[OF this, where amap=amap and backward=backward and self=self and og=og]
        Model_forward_tape2(2)[OF this, where amap=amap and backward=backward and self=self and og=og
          and out=out and self'=self']
      show ?thesis by simp
    next
      case False2: False
      with False show ?thesis by (simp add: Model_forward_def)
    qed
  qed
  then show "snd (Model_forward amap backward self x og) = self
         \<or> (\<exists>t \<in> set (tape_trace amap self x).
               snd (Model_forward amap backward self x og) = self\<lparr>tape := Some t\<rparr>)"
    and "Model_forward amap backward self x og = (Inr out, self')
         \<Longrightarrow> self' = self\<lparr>tape := Some (last (tape_trace amap self x))\<rparr>
             \<and> out = index_select1 (last (tape_trace amap self x)) (model_output_indices self)"
    by simp_all
qed

lemma reserves_index0_Model_forward:
  assumes r: "reserves_index0 self"
  shows "reserves_index0 (snd (Model_forward amap backward self x og))"
proof -
  from Model_forward_tape(1)[of amap backward self x og]
  show ?thesis
  proof
    assume "snd (Model_forward amap backward self x og) = self"
    with r show ?thesis by simp
  next
    assume "\<exists>t \<in> set (tape_trace amap self x).
               snd (Model_forward amap backward self x og) = self\<lparr>tape := Some t\<rparr>"
    then obtain t where t: "t \<in> set (tape_trace amap self x)"
      and s: "snd (Model_forward amap backward self x og) = self\<lparr>tape := Some t\<rparr>" by blast
    from zero_at_0_tape_trace[OF r, of amap x] t have "zero_at_0 t" by simp
    with r s show ?thesis by (simp add: reserves_index0_def zero_at_0_def)
  qed
qed

lemma tape_trace_nonempty:
  assumes "Model_forward amap backward self x og = (Inr out, self')"
  shows "tape_trace amap self x \<noteq> []"
proof -
  have rk: "length (shape x) = 1 \<or> length (shape x) = 2"
  proof (rule ccontr)
    assume "\<not> ?thesis"
    then have "Model_forward amap backward self x og = (Inl AssertionError, self)"
      by (simp add: Model_forward_def)
    with assms show False by simp
  qed
  have two: "tape_trace amap self y \<noteq> []" if y: "length (shape y) = 2" for y
  proof -
    obtain reused t0 where it: "initial_tape self (shape y ! 0) = (reused, t0)"
      by (cases "initial_tape self (shape y ! 0)") auto
    from tape_trace_rank2[OF y it, of amap] show ?thesis by simp
  qed
  from rk show ?thesis
  proof
    assume r: "length (shape x) = 1"
    then have "length (shape (x\<lparr>shape := 1 # shape x\<rparr>)) = 2" by simp
    from two[OF this] tape_trace_promote[OF r, of amap self] show ?thesis by simp
  next
    assume "length (shape x) = 2"
    then show ?thesis by (rule two)
  qed
qed

lemma reserves_index0_params:
  "reserves_index0 self \<Longrightarrow> map output_indices ops' = map output_indices (ops self)
     \<Longrightarrow> reserves_index0 (self\<lparr>ops := ops'\<rparr>)"
proof -
  assume r: "reserves_index0 self" and m: "map output_indices ops' = map output_indices (ops self)"
  have i: "output_indices ` set ops' = output_indices ` set (ops self)"
    using m by (metis set_map)
  have "\<forall>p \<in> set ops'. 0 \<notin> set (output_indices p)"
  proof
    fix p assume "p \<in> set ops'"
    then have "output_indices p \<in> output_indices ` set (ops self)" using i by blast
    then obtain q where "q \<in> set (ops self)" "output_indices p = output_indices q" by blast
    with r show "0 \<notin> set (output_indices p)" by (simp add: reserves_index0_def)
  qed
  with r show ?thesis by (simp add: reserves_index0_def)
qed

lemma reserves_index0_compile:
  "reserves_index0 self \<Longrightarrow> reserves_index0 (compile self opt lf)"
  by (simp add: reserves_index0_def compile_def Let_def)

lemma model6_trace:
  "tape_trace acts model6 \<lparr>shape = [2, 2], data = [1, 2, - 3, 4]\<rparr>
     = [[[0, 0, 0, 0, 0], [0, 0, 0, 0, 0]],
        [[0, 1, 2, 0, 0], [0, - 3, 4, 0, 0]],
        [[0, 1, 2, 3, 2], [0, - 3, 4, 1, 4]]]"
  by code_simp

lemma write_inputs_example:
  "write_inputs 2 [[0, 0, 0, 0, 0 :: real]] [[1, 2]] = Inr [[0, 1, 2, 0, 0]]"
  by code_simp

subsection \<open>The contract of Op.forward\<close>

lemma Op_init_weighted_row:
  assumes init: "Op_init imap ini seed h ns = Inr (self, h')"
    and W: "same_shape (input_indices self) W" and B: "length B = length ns"
    and b: "b < length t" and i: "i < length ns"
  shows "weighted (self\<lparr>weights := W, bias := B\<rparr>) t ! b ! i
           = map (\<lambda>j. t ! b ! (input_indices self ! i ! j) * W ! i ! j)
               [0..<length (input_indices self ! i)]"
proof -
  let ?p = "self\<lparr>weights := W, bias := B\<rparr>"
  note s = Op_init_shapes[OF init]
  have ok: "shapes_ok ?p" by (rule Op_init_params_shapes_ok[OF init W B])
  have li: "length (inverse_input_indices self) = length ns"
    using same_shape_length[OF s(2)] s(1) by simp
  have lij: "length (inverse_input_indices self ! i) = length (input_indices self ! i)"
    using same_shape_nth[OF s(2)] i s(1) by simp
  have i': "i < length (inverse_input_indices ?p)" using i li by simp
  show ?thesis
  proof (rule nth_equalityI)
    show "length (weighted ?p t ! b ! i)
            = length (map (\<lambda>j. t ! b ! (input_indices self ! i ! j) * W ! i ! j)
                [0..<length (input_indices self ! i)])"
      using length_weighted_entry[OF b i' ok] lij by simp
  next
    fix j assume "j < length (weighted ?p t ! b ! i)"
    then have j: "j < length (input_indices self ! i)"
      using length_weighted_entry[OF b i' ok] lij by simp
    then have j': "j < length (inverse_input_indices ?p ! i)" using lij by simp
    from weighted_entry[OF b i' ok j'] Op_init_inverse_nth(2)[OF init i j] j
    show "weighted ?p t ! b ! i ! j
            = map (\<lambda>j. t ! b ! (input_indices self ! i ! j) * W ! i ! j)
                [0..<length (input_indices self ! i)] ! j"
      by simp
  qed
qed

lemma Op_forward_contract:
  assumes init: "Op_init imap ini seed h ns = Inr (self, h')"
    and W: "same_shape (input_indices self) W" and B: "length B = length ns"
    and dist: "distinct (map (\<lambda>n. tape_index (h n)) ns)"
    and run: "forward amap (self\<lparr>weights := W, bias := B\<rparr>) t = Inr t'"
    and b: "b < length t" and i: "i < length ns"
  shows "\<exists>f. amap (activation (h (ns ! i))) = Some f
           \<and> t' ! b ! tape_index (h (ns ! i))
               = f (torch_sum (map (\<lambda>j. t ! b ! (input_indices self ! i ! j) * W ! i ! j)
                                 [0..<length (input_indices self ! i)]) + B ! i)"
proof -
  let ?p = "self\<lparr>weights := W, bias := B\<rparr>"
  note s = Op_init_shapes[OF init] and f = Op_init_fields[OF init]
  have li: "length (inverse_input_indices ?p) = length ns"
    using same_shape_length[OF s(2)] s(1) by simp
  have grp: "groups_ok h ns (activation_index_map ?p)"
    using Op_init_groups_ok[OF init] by simp
  have d: "distinct (output_indices ?p)" using dist f(5) by simp
  from forward_value[OF run grp li d b i] obtain g
    where g: "amap (activation (h (ns ! i))) = Some g"
      "t' ! b ! (output_indices ?p ! i) = g (torch_sum (weighted ?p t ! b ! i) + bias ?p ! i)"
    by blast
  have "output_indices ?p ! i = tape_index (h (ns ! i))" using f(5) i by simp
  with g Op_init_weighted_row[OF init W B b i] show ?thesis by simp
qed

lemma Op_forward_returns:
  assumes init: "Op_init imap ini seed h ns = Inr (self, h')"
    and W: "same_shape (input_indices self) W" and B: "length B = length ns"
    and ir: "in_range (unique_input_indices self) t" "in_range (output_indices self) t"
    and acts: "\<forall>n \<in> set ns. amap (activation (h n)) \<noteq> None"
  shows "\<exists>t'. forward amap (self\<lparr>weights := W, bias := B\<rparr>) t = Inr t'"
proof -
  let ?p = "self\<lparr>weights := W, bias := B\<rparr>"
  note s = Op_init_shapes[OF init]
  have li: "length (inverse_input_indices ?p) = length ns"
    using same_shape_length[OF s(2)] s(1) by simp
  have grp: "groups_ok h ns (activation_index_map ?p)"
    using Op_init_groups_ok[OF init] by simp
  have ne: "\<forall>p \<in> set (activation_index_map ?p). snd p \<noteq> []"
    using Op_init_groups_nonempty[OF init] by simp
  have ok: "shapes_ok ?p" by (rule Op_init_params_shapes_ok[OF init W B])
  from ir have ir': "in_range (unique_input_indices ?p) t" "in_range (output_indices ?p) t"
    by simp_all
  show ?thesis by (rule forward_succeeds[OF ok grp li ir' ne acts])
qed

subsection \<open>Models without hidden nodes\<close>

lemma assign_inputs_exact:
  "distinct ns \<Longrightarrow> assign_inputs ns h i = (h', i')
     \<Longrightarrow> \<forall>q < length ns. tape_index (h' (ns ! q)) = i + q"
proof (induction ns arbitrary: h i)
  case Nil
  then show ?case by simp
next
  case (Cons n ns)
  let ?h = "h(n := (h n)\<lparr>tape_index := i, assigned := True\<rparr>)"
  from Cons.prems have a: "assign_inputs ns ?h (i + 1) = (h', i')" and d: "distinct ns"
    and n: "n \<notin> set ns" by simp_all
  from assign_inputs_spec[OF a] n have hn: "h' n = ?h n" by blast
  from Cons.IH[OF d a] have ih: "\<forall>q < length ns. tape_index (h' (ns ! q)) = i + 1 + q" .
  show ?case
  proof (intro allI impI)
    fix q assume q: "q < length (n # ns)"
    show "tape_index (h' ((n # ns) ! q)) = i + q"
    proof (cases q)
      case 0
      with hn show ?thesis by simp
    next
      case (Suc q')
      with q ih show ?thesis by simp
    qed
  qed
qed

lemma scan_all_eligible:
  "\<forall>n \<in> set ns. list_all (\<lambda>inp. assigned (h inp)) (inputs (h n))
     \<Longrightarrow> \<exists>h1. scan ns h i acc = (h1, i + length ns, acc @ ns)"
proof (induction ns arbitrary: h i acc)
  case Nil
  then show ?case by simp
next
  case (Cons n ns)
  let ?h = "h(n := (h n)\<lparr>tape_index := i\<rparr>)"
  have "\<forall>m \<in> set ns. list_all (\<lambda>inp. assigned (?h inp)) (inputs (?h m))"
    using Cons.prems by (auto simp: list_all_iff)
  from Cons.IH[OF this, of "i + 1" "acc @ [n]"] obtain h1
    where "scan ns ?h (i + 1) (acc @ [n]) = (h1, i + 1 + length ns, (acc @ [n]) @ ns)" by blast
  moreover from Cons.prems have "list_all (\<lambda>inp. assigned (h inp)) (inputs (h n))" by simp
  ultimately have "scan (n # ns) h i acc = (h1, i + length (n # ns), acc @ n # ns)" by simp
  then show ?case by blast
qed

lemma scan_exact:
  "distinct ns \<Longrightarrow> scan ns h i acc = (h1, i1, opn)
     \<Longrightarrow> \<forall>n \<in> set ns. list_all (\<lambda>inp. assigned (h inp)) (inputs (h n))
     \<Longrightarrow> \<forall>q < length ns. tape_index (h1 (ns ! q)) = i + q"
proof (induction ns arbitrary: h i acc)
  case Nil
  then show ?case by simp
next
  case (Cons n ns)
  let ?h = "h(n := (h n)\<lparr>tape_index := i\<rparr>)"
  have e: "\<forall>m \<in> set ns. list_all (\<lambda>inp. assigned (?h inp)) (inputs (?h m))"
    using Cons.prems(3) by (auto simp: list_all_iff)
  from Cons.prems have a: "scan ns ?h (i + 1) (acc @ [n]) = (h1, i1, opn)"
    and d: "distinct ns" and n: "n \<notin> set ns" by simp_all
  from scan_spec[OF a] n have hn: "tape_index (h1 n) = tape_index (?h n)" by blast
  from Cons.IH[OF d a e] have ih: "\<forall>q < length ns. tape_index (h1 (ns ! q)) = i + 1 + q" .
  show ?case
  proof (intro allI impI)
    fix q assume q: "q < length (n # ns)"
    show "tape_index (h1 ((n # ns) ! q)) = i + q"
    proof (cases q)
      case 0
      with hn show ?thesis by simp
    next
      case (Suc q')
      with q ih show ?thesis by simp
    qed
  qed
qed

lemma group_check_subset:
  "set l \<subseteq> set opn \<Longrightarrow> group_check l opn k fails = fails"
  by (induction l) simp_all

lemma check_op_ids_no_fail:
  "\<forall>n \<in> set ns. op_id (h n) \<noteq> ''any'' \<longrightarrow> (\<exists>l. idm (op_id (h n)) = Some l \<and> set l \<subseteq> set opn)
     \<Longrightarrow> check_op_ids h idm opn ns f0 = Inr (if ns = [] then f0 else Some [])"
proof (induction ns arbitrary: f0)
  case Nil
  then show ?case by simp
next
  case (Cons n ns)
  have ih: "check_op_ids h idm opn ns f = Inr (if ns = [] then f else Some [])" for f
    using Cons.IH Cons.prems by simp
  show ?case
  proof (cases "op_id (h n) = ''any''")
    case True
    then show ?thesis by (simp add: ih)
  next
    case False
    with Cons.prems obtain l where l: "idm (op_id (h n)) = Some l" "set l \<subseteq> set opn"
      by auto
    from False l group_check_subset[OF l(2)] show ?thesis by (simp add: ih)
  qed
qed

lemma build_id_node_map_spec:
  "(\<forall>k l. build_id_node_map h ns m k = Some l
       \<longrightarrow> set l \<subseteq> (case m k of None \<Rightarrow> {} | Some l0 \<Rightarrow> set l0) \<union> set ns)
   \<and> (\<forall>k. (m k \<noteq> None \<or> (\<exists>n \<in> set ns. op_id (h n) = k))
       \<longrightarrow> build_id_node_map h ns m k \<noteq> None)"
proof (induction ns arbitrary: m)
  case Nil
  then show ?case by (auto split: option.splits)
next
  case (Cons n ns)
  let ?m = "m(op_id (h n) \<mapsto> (case m (op_id (h n)) of None \<Rightarrow> [] | Some l \<Rightarrow> l) @ [n])"
  note ih = Cons.IH[of ?m]
  show ?case
  proof (intro conjI allI impI)
    fix k l assume "build_id_node_map h (n # ns) m k = Some l"
    then have "build_id_node_map h ns ?m k = Some l" by simp
    with ih have "set l \<subseteq> (case ?m k of None \<Rightarrow> {} | Some l0 \<Rightarrow> set l0) \<union> set ns" by blast
    moreover have "(case ?m k of None \<Rightarrow> {} | Some l0 \<Rightarrow> set l0)
        \<subseteq> (case m k of None \<Rightarrow> {} | Some l0 \<Rightarrow> set l0) \<union> {n}"
      by (auto split: option.splits if_splits)
    ultimately show "set l \<subseteq> (case m k of None \<Rightarrow> {} | Some l0 \<Rightarrow> set l0) \<union> set (n # ns)"
      by auto
  next
    fix k assume "m k \<noteq> None \<or> (\<exists>n \<in> set (n # ns). op_id (h n) = k)"
    then have "?m k \<noteq> None \<or> (\<exists>n \<in> set ns. op_id (h n) = k)" by auto
    with ih have "build_id_node_map h ns ?m k \<noteq> None" by blast
    then show "build_id_node_map h (n # ns) m k \<noteq> None" by simp
  qed
qed

lemma remove_nodes_all: "remove_nodes ns ns = Inr []"
  by (induction ns) simp_all

lemma Op_init_succeeds:
  assumes "ns \<noteq> []" "imap ini = Some init" "\<forall>seed idx. same_shape idx (init seed idx)"
  shows "\<exists>p. Op_init imap ini seed h ns = Inr (p, set_assigned ns h)"
  using assms by (simp add: Op_init_def Let_def torch_unique_def)

lemma construct_loop_done:
  "c_remaining st = [] \<Longrightarrow> construct_loop imap ini idm fuel st = Some (Inr st)"
  by (cases fuel) simp_all

lemma zero_hidden_init:
  fixes imap :: "('a::{zero,plus,times}) initialization_map"
  assumes hid: "hidden_nodes g = []" and outs: "output_nodes g \<noteq> []"
    and dist: "distinct (input_nodes g @ output_nodes g)"
    and inp: "\<forall>n \<in> set (output_nodes g). set (inputs (h n)) \<subseteq> set (input_nodes g)"
    and ini: "imap ini = Some init" "\<forall>seed idx. same_shape idx (init seed idx)"
  shows "\<exists>m h1 p.
           Model_init imap (Suc fuel) g ini h
             = Some (Inr (m, set_assigned (output_nodes g) h1))
         \<and> Op_init imap ini 0 h1 (output_nodes g) = Inr (p, set_assigned (output_nodes g) h1)
         \<and> ops m = [p]
         \<and> (\<forall>q < length (input_nodes g). tape_index (h1 (input_nodes g ! q)) = 1 + q)
         \<and> (\<forall>q < length (output_nodes g).
               tape_index (h1 (output_nodes g ! q)) = 1 + length (input_nodes g) + q)
         \<and> (\<forall>n. inputs (h1 n) = inputs (h n) \<and> activation (h1 n) = activation (h n)
                \<and> output_index (h1 n) = output_index (h n))
         \<and> tape m = None
         \<and> tape_size m = length (input_nodes g) + length (output_nodes g) + 1
         \<and> input_size m = length (input_nodes g)
         \<and> model_output_indices m
             = map (\<lambda>n. tape_index (h1 n))
                 (sort_key (\<lambda>n. output_index (h n)) (output_nodes g))"
proof -
  let ?ins = "input_nodes g" and ?outs = "output_nodes g"
  let ?b = "blank_model g ini :: 'a model"
  obtain h0 i0 where a: "assign_inputs ?ins h 1 = (h0, i0)"
    by (cases "assign_inputs ?ins h 1") auto
  note as = assign_inputs_spec[OF a]
  have i0: "i0 = 1 + length ?ins" using as by simp
  have h0_in: "assigned (h0 n)" if "n \<in> set ?ins" for n using as that by blast
  have h0_f: "inputs (h0 n) = inputs (h n)" "op_id (h0 n) = op_id (h n)"
    "activation (h0 n) = activation (h n)" "output_index (h0 n) = output_index (h n)" for n
    using as by blast+
  from dist have d_in: "distinct ?ins" and d_out: "distinct ?outs"
    and disj: "set ?ins \<inter> set ?outs = {}" by simp_all
  note ex0 = assign_inputs_exact[OF d_in a]
  have el: "\<forall>n \<in> set ?outs. list_all (\<lambda>inp. assigned (h0 inp)) (inputs (h0 n))"
  proof
    fix n assume n: "n \<in> set ?outs"
    with inp have "set (inputs (h n)) \<subseteq> set ?ins" by blast
    then show "list_all (\<lambda>inp. assigned (h0 inp)) (inputs (h0 n))"
      using h0_in by (auto simp: list_all_iff h0_f)
  qed
  from scan_all_eligible[OF el, of i0 "[]"] obtain h1
    where sc: "scan ?outs h0 i0 [] = (h1, i0 + length ?outs, ?outs)" by auto
  note ss = scan_spec[OF sc]
  have h1_f: "inputs (h1 n) = inputs (h0 n)" "op_id (h1 n) = op_id (h0 n)"
    "activation (h1 n) = activation (h0 n)" "output_index (h1 n) = output_index (h0 n)" for n
    using ss by blast+
  have h1_in: "tape_index (h1 n) = tape_index (h0 n)" if "n \<notin> set ?outs" for n
    using ss that by blast
  note ex1 = scan_exact[OF d_out sc el]
  let ?idm = "build_id_node_map h0 ?outs Map.empty"
  note bs = build_id_node_map_spec[of h0 ?outs Map.empty]
  have ck0: "\<forall>n \<in> set ?outs. op_id (h1 n) \<noteq> ''any''
               \<longrightarrow> (\<exists>l. ?idm (op_id (h1 n)) = Some l \<and> set l \<subseteq> set ?outs)"
  proof (intro ballI impI)
    fix n assume n: "n \<in> set ?outs"
    with bs have "?idm (op_id (h0 n)) \<noteq> None" by blast
    then obtain l where l: "?idm (op_id (h0 n)) = Some l" by auto
    with bs have "set l \<subseteq> set ?outs" by fastforce
    with l show "\<exists>l. ?idm (op_id (h1 n)) = Some l \<and> set l \<subseteq> set ?outs"
      by (simp add: h1_f)
  qed
  from check_op_ids_no_fail[OF ck0, of None] outs
  have ck: "check_op_ids h1 ?idm ?outs ?outs None = Inr (Some [])" by simp
  from Op_init_succeeds[where imap=imap and ini=ini and init=init and ns="?outs" and seed=0 and h=h1,
      OF outs ini] obtain p
    where op: "Op_init imap ini 0 h1 ?outs = Inr (p, set_assigned ?outs h1)" by blast
  let ?st0 = "start_state ?b h"
  let ?st1 = "\<lparr>c_store = set_assigned ?outs h1, c_i = i0 + length ?outs, c_remaining = [],
              c_ops = [p], c_fails = Some []\<rparr> :: 'a cstate"
  have st0: "c_store ?st0 = h0" "c_i ?st0 = i0" "c_remaining ?st0 = ?outs" "c_ops ?st0 = []"
    "c_fails ?st0 = None"
    using a hid by (simp_all add: start_state_def blank_model_def)
  have sm: "start_map ?b h = ?idm"
    using a hid by (simp add: start_map_def blank_model_def)
  have rd: "construct_round imap ini ?idm ?st0 = Inr ?st1"
    unfolding construct_round_def st0 sc using ck outs op
    by (simp add: remove_nodes_all)
  have "construct_loop imap ini ?idm (Suc fuel) ?st0 = construct_loop imap ini ?idm fuel ?st1"
    using st0(3) outs rd by (intro construct_loop_Suc) simp_all
  also have "\<dots> = Some (Inr ?st1)" by (rule construct_loop_done) simp
  finally have lp: "construct_loop imap (initialization ?b) (start_map ?b h) (Suc fuel) ?st0
      = Some (Inr ?st1)"
    unfolding sm by (simp add: blank_model_def)
  let ?so = "sort_key (\<lambda>n. output_index (set_assigned ?outs h1 n)) (model_outputs ?b)"
  let ?m = "?b\<lparr>ops := [p], model_outputs := ?so,
               model_output_indices := map (\<lambda>n. tape_index (set_assigned ?outs h1 n)) ?so,
               optimizer := None, loss_function := None\<rparr>"
  have mi: "Model_init imap (Suc fuel) g ini h = Some (Inr (?m, set_assigned ?outs h1))"
    unfolding Model_init_unfold construct_unfold lp by simp
  have sa: "tape_index (set_assigned ?outs h1 n) = tape_index (h1 n)"
    "output_index (set_assigned ?outs h1 n) = output_index (h1 n)" for n
    by simp_all
  have moi: "model_output_indices ?m
      = map (\<lambda>n. tape_index (h1 n)) (sort_key (\<lambda>n. output_index (h n)) ?outs)"
    by (simp add: sa h1_f h0_f blank_model_def)
  have t_in: "\<forall>q < length ?ins. tape_index (h1 (?ins ! q)) = 1 + q"
  proof (intro allI impI)
    fix q assume q: "q < length ?ins"
    then have "?ins ! q \<notin> set ?outs" using disj nth_mem[OF q] by blast
    from h1_in[OF this] ex0 q show "tape_index (h1 (?ins ! q)) = 1 + q" by simp
  qed
  have t_out: "\<forall>q < length ?outs. tape_index (h1 (?outs ! q)) = 1 + length ?ins + q"
    using ex1 i0 by simp
  have fl: "\<forall>n. inputs (h1 n) = inputs (h n) \<and> activation (h1 n) = activation (h n)
                \<and> output_index (h1 n) = output_index (h n)"
    by (simp add: h1_f h0_f)
  have rest: "ops ?m = [p]" "tape ?m = None"
    "tape_size ?m = length ?ins + length ?outs + 1" "input_size ?m = length ?ins"
    using hid by (simp_all add: blank_model_def)
  from mi op rest(1) t_in t_out fl rest(2,3,4) moi show ?thesis by blast
qed

lemma length_rows_of_nth:
  assumes "shape x = [batch, n]" "length (data x) = batch * n" "b < batch"
  shows "length (rows_of x ! b) = n"
proof -
  from assms(3) have "(b + 1) * n \<le> batch * n" by (intro mult_le_mono1) simp
  then have "n \<le> batch * n - b * n" by (simp add: algebra_simps)
  with assms show ?thesis by (simp add: rows_of_def)
qed

lemma write_row_zeros:
  assumes "length xr = n"
  shows "write_row n (replicate (n + k + 1) 0) xr = 0 # xr @ replicate k 0"
proof -
  have sl: "slice_len n (replicate (n + k + 1) (0::'a)) = n" by (simp add: slice_len_def)
  have "take 1 (replicate (n + k + 1) (0::'a)) = [0]" by (simp add: take_Suc_conv_app_nth)
  moreover have "drop (n + 1) (replicate (n + k + 1) (0::'a)) = replicate k 0" by simp
  ultimately show ?thesis using assms unfolding write_row_def sl by simp
qed

lemma zero_hidden_pass:
  fixes p :: "('a::{zero,plus,times}) op"
  assumes op: "Op_init imap ini seed h1 outs = Inr (p, h2)"
    and W: "same_shape (input_indices p) W" and B: "length Bs = length outs"
    and t_in: "\<forall>q < length ins. tape_index (h1 (ins ! q)) = 1 + q"
    and t_out: "\<forall>q < length outs. tape_index (h1 (outs ! q)) = 1 + length ins + q"
    and inp: "\<forall>n \<in> set outs. set (inputs (h1 n)) \<subseteq> set ins"
    and m: "ops m = [p\<lparr>weights := W, bias := Bs\<rparr>]" "tape m = None"
      "tape_size m = length ins + length outs + 1" "input_size m = length ins"
      "model_output_indices m = map (\<lambda>n. tape_index (h1 n)) so" "set so \<subseteq> set outs"
    and x: "shape x = [batch, length ins]" "length (data x) = batch * length ins"
    and acts: "\<forall>n \<in> set outs. amap (activation (h1 n)) \<noteq> None"
  shows "\<exists>out m'. Model_forward amap backward m x False = (Inr out, m')
           \<and> length out = batch
           \<and> (\<forall>b < batch. \<forall>i < length outs.
                \<exists>f. amap (activation (h1 (outs ! i))) = Some f
                   \<and> (\<forall>k < length so. so ! k = outs ! i \<longrightarrow>
                        out ! b ! k
                          = f (torch_sum
                                 (map (\<lambda>j. (if j < length (inputs (h1 (outs ! i)))
                                            then rows_of x ! b
                                                   ! index_of ins (inputs (h1 (outs ! i)) ! j)
                                            else 0) * W ! i ! j)
                                    [0..<length (input_indices p ! i)])
                               + Bs ! i)))"
proof -
  let ?I = "length ins" and ?O = "length outs"
  let ?p = "p\<lparr>weights := W, bias := Bs\<rparr>"
  let ?t0 = "replicate batch (replicate (?I + ?O + 1) (0::'a))"
  let ?r = "rows_of x"
  let ?t1 = "map2 (write_row ?I) ?t0 ?r"
  note f = Op_init_fields[OF op] and s = Op_init_shapes[OF op]
  have it: "initial_tape m batch = (False, ?t0)" using m(2,3) by (simp add: initial_tape_def)
  have lr: "length ?r = batch" using x(1) by simp
  have lrb: "length (?r ! b) = ?I" if "b < batch" for b
    using length_rows_of_nth[OF x that] .
  have t1b: "?t1 ! b = 0 # ?r ! b @ replicate ?O 0" if "b < batch" for b
    using that lr write_row_zeros[OF lrb[OF that], of ?O] by simp
  have lt1: "length ?t1 = batch" using lr by simp
  have rows1: "\<forall>row \<in> set ?t1. length row = ?I + ?O + 1"
  proof
    fix row assume "row \<in> set ?t1"
    then obtain b where b: "b < length ?t1" "row = ?t1 ! b" by (auto simp: in_set_conv_nth)
    with lt1 have "b < batch" by simp
    from t1b[OF this] lrb[OF this] b(2) show "length row = ?I + ?O + 1" by simp
  qed
  have wi: "write_inputs (input_size m) ?t0 ?r = Inr ?t1"
  proof -
    have "length xr = slice_len ?I row" if "(row, xr) \<in> set (zip ?t0 ?r)" for row xr
    proof -
      from that obtain b where b: "b < batch" "row = ?t0 ! b" "xr = ?r ! b"
        using lr by (auto simp: set_zip)
      from b(1,2) have "row = replicate (?I + ?O + 1) 0" by simp
      then have "slice_len ?I row = ?I" by (simp add: slice_len_def)
      with lrb[OF b(1)] b(3) show ?thesis by simp
    qed
    then show ?thesis unfolding write_inputs_def m(4) by auto
  qed
  have slot: "input_indices p ! i ! j \<le> ?I
      \<and> ?t1 ! b ! (input_indices p ! i ! j)
          = (if j < length (inputs (h1 (outs ! i)))
             then ?r ! b ! index_of ins (inputs (h1 (outs ! i)) ! j) else 0)"
    if i: "i < ?O" and j: "j < length (input_indices p ! i)" and b: "b < batch" for i j b
  proof (cases "j < length (inputs (h1 (outs ! i)))")
    case True
    let ?n = "inputs (h1 (outs ! i)) ! j"
    from Op_init_real_slot(2)[OF op i True]
    have e: "input_indices p ! i ! j = tape_index (h1 ?n)" .
    have "?n \<in> set ins" using inp nth_mem[OF i] nth_mem[OF True] by blast
    from index_of_less[OF this] nth_index_of[OF this]
    have q: "index_of ins ?n < ?I" "ins ! index_of ins ?n = ?n" .
    with t_in have "tape_index (h1 ?n) = 1 + index_of ins ?n" by metis
    with e q(1) t1b[OF b] lrb[OF b] True show ?thesis by (simp add: nth_append)
  next
    case False
    then have "length (inputs (h1 (outs ! i))) \<le> j" by simp
    from Op_init_padded(1)[OF op i this j] t1b[OF b] False show ?thesis by simp
  qed
  have ir_u: "in_range (unique_input_indices p) ?t1"
    unfolding in_range_def
  proof (intro ballI)
    fix row u assume row: "row \<in> set ?t1" and u: "u \<in> set (unique_input_indices p)"
    from u have "u \<in> set (concat (input_indices p))" unfolding f(6) by simp
    then obtain i j where ij: "i < length (input_indices p)" "j < length (input_indices p ! i)"
      "u = input_indices p ! i ! j"
      by (auto simp: in_set_conv_nth) 
    show "u < length row"
    proof (cases "batch = 0")
      case True
      with row lt1 show ?thesis by simp
    next
      case False
      then have "0 < batch" by simp
      from slot[OF _ ij(2) this] ij(1,3) s(1) rows1 row show ?thesis by auto
    qed
  qed
  have oi: "output_indices p = map (\<lambda>n. tape_index (h1 n)) outs" by (rule f(5))
  have out_lt: "tape_index (h1 n) < ?I + ?O + 1" if "n \<in> set outs" for n
  proof -
    from that obtain q where "q < ?O" "n = outs ! q" by (auto simp: in_set_conv_nth)
    with t_out show ?thesis by simp
  qed
  have ir_o: "in_range (output_indices p) ?t1"
    unfolding in_range_def oi using rows1 out_lt by auto
  from Op_forward_returns[OF op W B ir_u ir_o acts] obtain t2
    where fw: "forward amap ?p ?t1 = Inr t2" by blast
  have ro: "run_ops amap (ops m) ?t1 = (None, t2)" unfolding m(1) using fw by simp
  have lt2: "length t2 = batch" using forward_length[OF fw] lt1 by simp
  have rows2: "\<forall>row \<in> set t2. length row = ?I + ?O + 1"
  proof
    fix row assume "row \<in> set t2"
    then obtain b where b: "b < length t2" "row = t2 ! b" by (auto simp: in_set_conv_nth)
    then have b1: "b < length ?t1" using forward_length[OF fw] by simp
    from rows1 nth_mem[OF b1] have "length (?t1 ! b) = ?I + ?O + 1" by (rule bspec)
    with forward_frame(1)[OF fw b1] b(2)
    show "length row = ?I + ?O + 1" by (simp only:)
  qed
  have ir_m: "in_range (model_output_indices m) t2"
    unfolding in_range_def m(5) using rows2 out_lt m(6) by auto
  let ?out = "index_select1 t2 (model_output_indices m)"
  have mf: "Model_forward amap backward m x False = (Inr ?out, m\<lparr>tape := Some t2\<rparr>)"
    using it wi ro ir_m x(1) by (simp add: Model_forward_def Let_def)
  have dist: "distinct (map (\<lambda>n. tape_index (h1 n)) outs)"
  proof -
    have "map (\<lambda>n. tape_index (h1 n)) outs = map (\<lambda>q. 1 + ?I + q) [0..<?O]"
      using t_out by (intro nth_equalityI) simp_all
    moreover have "distinct (map (\<lambda>q. 1 + ?I + q) [0..<?O])"
      by (simp add: distinct_map inj_on_def)
    ultimately show ?thesis by simp
  qed
  have val: "\<exists>f. amap (activation (h1 (outs ! i))) = Some f
                   \<and> (\<forall>k < length so. so ! k = outs ! i \<longrightarrow>
                        ?out ! b ! k
                          = f (torch_sum
                                 (map (\<lambda>j. (if j < length (inputs (h1 (outs ! i)))
                                            then ?r ! b ! index_of ins (inputs (h1 (outs ! i)) ! j)
                                            else 0) * W ! i ! j)
                                    [0..<length (input_indices p ! i)])
                               + Bs ! i))"
    if b: "b < batch" and i: "i < ?O" for b i
  proof -
    from b lt1 have b1: "b < length ?t1" by simp
    from Op_forward_contract[OF op W B dist fw b1 i] obtain g
      where g: "amap (activation (h1 (outs ! i))) = Some g"
        "t2 ! b ! tape_index (h1 (outs ! i))
           = g (torch_sum (map (\<lambda>j. ?t1 ! b ! (input_indices p ! i ! j) * W ! i ! j)
                             [0..<length (input_indices p ! i)]) + Bs ! i)"
      by blast
    have eq: "map (\<lambda>j. ?t1 ! b ! (input_indices p ! i ! j) * W ! i ! j)
              [0..<length (input_indices p ! i)]
        = map (\<lambda>j. (if j < length (inputs (h1 (outs ! i)))
                     then ?r ! b ! index_of ins (inputs (h1 (outs ! i)) ! j)
                     else 0) * W ! i ! j)
              [0..<length (input_indices p ! i)]"
    proof (rule map_cong[OF refl])
      fix j assume "j \<in> set [0..<length (input_indices p ! i)]"
      then have "j < length (input_indices p ! i)" by simp
      from slot[OF i this b]
      show "?t1 ! b ! (input_indices p ! i ! j) * W ! i ! j
          = (if j < length (inputs (h1 (outs ! i)))
             then ?r ! b ! index_of ins (inputs (h1 (outs ! i)) ! j) else 0) * W ! i ! j"
        by simp
    qed
    have v: "t2 ! b ! tape_index (h1 (outs ! i))
        = g (torch_sum
               (map (\<lambda>j. (if j < length (inputs (h1 (outs ! i)))
                          then ?r ! b ! index_of ins (inputs (h1 (outs ! i)) ! j)
                          else 0) * W ! i ! j)
                  [0..<length (input_indices p ! i)])
             + Bs ! i)" using g(2) unfolding eq .
    have "?out ! b ! k = t2 ! b ! tape_index (h1 (outs ! i))"
      if "k < length so" "so ! k = outs ! i" for k
      using that b lt2 by (simp add: index_select1_def m(5))
    with g(1) v show ?thesis by simp
  qed
  from mf lt2 val show ?thesis by simp
qed

lemma zero_hidden_contract:
  fixes imap :: "('a::{zero,plus,times}) initialization_map"
  assumes hid: "hidden_nodes g = []" and outs: "output_nodes g \<noteq> []"
    and dist: "distinct (input_nodes g @ output_nodes g)"
    and inp: "\<forall>n \<in> set (output_nodes g). set (inputs (h n)) \<subseteq> set (input_nodes g)"
    and ini: "imap ini = Some init" "\<forall>seed idx. same_shape idx (init seed idx)"
  shows "\<exists>m h' p.
           Model_init imap (Suc fuel) g ini h = Some (Inr (m, h'))
         \<and> ops m = [p]
         \<and> (\<forall>i j. i < length (output_nodes g) \<and> length (inputs (h (output_nodes g ! i))) \<le> j
                  \<and> j < length (weights p ! i) \<longrightarrow> weights p ! i ! j = 0)
         \<and> (\<forall>W Bs amap backward x batch.
               same_shape (weights p) W \<and> length Bs = length (output_nodes g)
               \<and> shape x = [batch, length (input_nodes g)]
               \<and> length (data x) = batch * length (input_nodes g)
               \<and> (\<forall>n \<in> set (output_nodes g). amap (activation (h n)) \<noteq> None)
               \<longrightarrow> (\<exists>out m'.
                      Model_forward amap backward (m\<lparr>ops := [p\<lparr>weights := W, bias := Bs\<rparr>]\<rparr>) x False
                        = (Inr out, m')
                    \<and> length out = batch
                    \<and> (\<forall>b k. b < batch \<and> k < length (output_nodes g) \<longrightarrow>
                         (\<exists>f. amap (activation (h (output_node h (output_nodes g) k))) = Some f
                            \<and> out ! b ! k
                                = f (dense_sum (rows_of x ! b) (input_nodes g)
                                       (inputs (h (output_node h (output_nodes g) k)))
                                       (W ! index_of (output_nodes g)
                                              (output_node h (output_nodes g) k))
                                     + Bs ! index_of (output_nodes g)
                                              (output_node h (output_nodes g) k))))))"
proof -
  let ?ins = "input_nodes g" and ?outs = "output_nodes g"
  let ?so = "sort_key (\<lambda>n. output_index (h n)) ?outs"
  from zero_hidden_init[where imap=imap and ini=ini and init=init and g=g and h=h and fuel=fuel,
      OF hid outs dist inp ini] obtain m h1 p
    where mi: "Model_init imap (Suc fuel) g ini h = Some (Inr (m, set_assigned ?outs h1))"
      and op: "Op_init imap ini 0 h1 ?outs = Inr (p, set_assigned ?outs h1)"
      and om: "ops m = [p]"
      and t_in: "\<forall>q < length ?ins. tape_index (h1 (?ins ! q)) = 1 + q"
      and t_out: "\<forall>q < length ?outs. tape_index (h1 (?outs ! q)) = 1 + length ?ins + q"
      and fl: "\<forall>n. inputs (h1 n) = inputs (h n) \<and> activation (h1 n) = activation (h n)
                \<and> output_index (h1 n) = output_index (h n)"
      and tm: "tape m = None" "tape_size m = length ?ins + length ?outs + 1"
        "input_size m = length ?ins"
      and moi: "model_output_indices m = map (\<lambda>n. tape_index (h1 n)) ?so"
    by blast
  note s = Op_init_shapes[OF op]
  from fl have hi: "inputs (h1 n) = inputs (h n)" and ha: "activation (h1 n) = activation (h n)"
    for n by simp_all
  have pad: "\<forall>i j. i < length ?outs \<and> length (inputs (h (?outs ! i))) \<le> j
                  \<and> j < length (weights p ! i) \<longrightarrow> weights p ! i ! j = 0"
  proof (intro allI impI)
    fix i j assume a: "i < length ?outs \<and> length (inputs (h (?outs ! i))) \<le> j
                  \<and> j < length (weights p ! i)"
    then have i: "i < length ?outs" and j1: "length (inputs (h1 (?outs ! i))) \<le> j"
      using fl by simp_all
    have "length (weights p ! i) = length (input_indices p ! i)"
      using same_shape_nth[OF s(3)] i s(1) by simp
    with a have j2: "j < length (input_indices p ! i)" by simp
    from Op_init_padded(2)[OF op i j1 j2] show "weights p ! i ! j = 0" .
  qed
  have pass: "\<exists>out m'.
        Model_forward amap backward (m\<lparr>ops := [p\<lparr>weights := W, bias := Bs\<rparr>]\<rparr>) x False
          = (Inr out, m')
      \<and> length out = batch
      \<and> (\<forall>b k. b < batch \<and> k < length ?outs \<longrightarrow>
           (\<exists>f. amap (activation (h (output_node h ?outs k))) = Some f
              \<and> out ! b ! k
                  = f (dense_sum (rows_of x ! b) ?ins (inputs (h (output_node h ?outs k)))
                         (W ! index_of ?outs (output_node h ?outs k))
                       + Bs ! index_of ?outs (output_node h ?outs k))))"
    if W: "same_shape (weights p) W" and B: "length Bs = length ?outs"
      and x: "shape x = [batch, length ?ins]" "length (data x) = batch * length ?ins"
      and acts: "\<forall>n \<in> set ?outs. amap (activation (h n)) \<noteq> None"
    for W Bs and amap :: "'a activation_map" and backward x batch
  proof -
    let ?m = "m\<lparr>ops := [p\<lparr>weights := W, bias := Bs\<rparr>]\<rparr>"
    have W': "same_shape (input_indices p) W" by (rule same_shape_trans[OF s(3) W])
    have inp1: "\<forall>n \<in> set ?outs. set (inputs (h1 n)) \<subseteq> set ?ins" using inp fl by simp
    have acts1: "\<forall>n \<in> set ?outs. amap (activation (h1 n)) \<noteq> None" using acts fl by simp
    have m': "ops ?m = [p\<lparr>weights := W, bias := Bs\<rparr>]" "tape ?m = None"
      "tape_size ?m = length ?ins + length ?outs + 1" "input_size ?m = length ?ins"
      "model_output_indices ?m = map (\<lambda>n. tape_index (h1 n)) ?so" "set ?so \<subseteq> set ?outs"
      using tm moi by simp_all
    from zero_hidden_pass[OF op W' B t_in t_out inp1 m' x acts1, of backward]
    obtain out m2 where r: "Model_forward amap backward ?m x False = (Inr out, m2)"
      "length out = batch"
      and v: "\<forall>b < batch. \<forall>i < length ?outs.
                \<exists>f. amap (activation (h1 (?outs ! i))) = Some f
                   \<and> (\<forall>k < length ?so. ?so ! k = ?outs ! i \<longrightarrow>
                        out ! b ! k
                          = f (torch_sum
                                 (map (\<lambda>j. (if j < length (inputs (h1 (?outs ! i)))
                                            then rows_of x ! b
                                                   ! index_of ?ins (inputs (h1 (?outs ! i)) ! j)
                                            else 0) * W ! i ! j)
                                    [0..<length (input_indices p ! i)])
                               + Bs ! i))"
      by blast
    have val: "\<exists>f. amap (activation (h (output_node h ?outs k))) = Some f
              \<and> out ! b ! k
                  = f (dense_sum (rows_of x ! b) ?ins (inputs (h (output_node h ?outs k)))
                         (W ! index_of ?outs (output_node h ?outs k))
                       + Bs ! index_of ?outs (output_node h ?outs k))"
      if b: "b < batch" and k: "k < length ?outs" for b k
    proof -
      let ?n = "output_node h ?outs k"
      let ?i = "index_of ?outs ?n"
      have kso: "k < length ?so" using k by simp
      then have "?so ! k \<in> set ?so" by (rule nth_mem)
      then have mem: "?n \<in> set ?outs" by (simp add: output_node_def)
      from index_of_less[OF mem] nth_index_of[OF mem]
      have i: "?i < length ?outs" "?outs ! ?i = ?n" .
      have lw: "length (W ! ?i) = length (input_indices p ! ?i)"
        using same_shape_nth[OF W'] i(1) s(1) by simp
      from v b i(1) obtain f where f: "amap (activation (h1 (?outs ! ?i))) = Some f"
        "\<forall>k < length ?so. ?so ! k = ?outs ! ?i \<longrightarrow>
            out ! b ! k
              = f (torch_sum
                     (map (\<lambda>j. (if j < length (inputs (h1 (?outs ! ?i)))
                                then rows_of x ! b
                                       ! index_of ?ins (inputs (h1 (?outs ! ?i)) ! j)
                                else 0) * W ! ?i ! j)
                        [0..<length (input_indices p ! ?i)])
                   + Bs ! ?i)"
        by blast
      have "?so ! k = ?outs ! ?i" using i(2) by (simp add: output_node_def)
      with f(2) kso have "out ! b ! k
              = f (torch_sum
                     (map (\<lambda>j. (if j < length (inputs (h1 (?outs ! ?i)))
                                then rows_of x ! b
                                       ! index_of ?ins (inputs (h1 (?outs ! ?i)) ! j)
                                else 0) * W ! ?i ! j)
                        [0..<length (input_indices p ! ?i)])
                   + Bs ! ?i)" by blast
      then have "out ! b ! k
                  = f (dense_sum (rows_of x ! b) ?ins (inputs (h ?n)) (W ! ?i) + Bs ! ?i)"
        unfolding dense_sum_def lw i(2) hi .
      moreover from f(1) have "amap (activation (h ?n)) = Some f" unfolding i(2) ha .
      ultimately show ?thesis by blast
    qed
    from r val show ?thesis by blast
  qed
  from mi om pad pass show ?thesis by blast
qed

subsection \<open>The operations that construct builds\<close>

lemma scan_increasing:
  "scan ns h i acc = (h1, i1, opn) \<Longrightarrow> distinct ns
     \<Longrightarrow> \<exists>new. opn = acc @ new \<and> map (\<lambda>n. tape_index (h1 n)) new = [i..<i1]
               \<and> set new \<subseteq> set ns"
proof (induction ns arbitrary: h i acc)
  case Nil
  then show ?case by simp
next
  case (Cons n ns)
  from Cons.prems(2) have d: "distinct ns" and n: "n \<notin> set ns" by simp_all
  show ?case
  proof (cases "list_all (\<lambda>inp. assigned (h inp)) (inputs (h n))")
    case True
    let ?h = "h(n := (h n)\<lparr>tape_index := i\<rparr>)"
    from True Cons.prems(1) have a: "scan ns ?h (i + 1) (acc @ [n]) = (h1, i1, opn)" by simp
    from Cons.IH[OF a d] obtain new where new: "opn = (acc @ [n]) @ new"
      "map (\<lambda>n. tape_index (h1 n)) new = [i + 1..<i1]" "set new \<subseteq> set ns" by blast
    from scan_spec[OF a] n have hn: "tape_index (h1 n) = tape_index (?h n)" by blast
    from scan_spec[OF a] have le: "i + 1 \<le> i1" by blast
    then have "[i..<i1] = i # [i + 1..<i1]" by (simp add: upt_conv_Cons)
    with new hn have "opn = acc @ (n # new)
        \<and> map (\<lambda>n. tape_index (h1 n)) (n # new) = [i..<i1] \<and> set (n # new) \<subseteq> set (n # ns)"
      by auto
    then show ?thesis by blast
  next
    case False
    with Cons.prems(1) have a: "scan ns h i acc = (h1, i1, opn)" by simp
    from Cons.IH[OF a d] show ?thesis by auto
  qed
qed

lemma remove_nodes_distinct:
  "remove_nodes ns rem = Inr rem2 \<Longrightarrow> distinct rem \<Longrightarrow> distinct rem2"
proof (induction ns arbitrary: rem)
  case Nil
  then show ?case by simp
next
  case (Cons n ns)
  from Cons.prems(1) have "remove_nodes ns (remove1 n rem) = Inr rem2"
    by (simp split: if_splits)
  from Cons.IH[OF this] Cons.prems(2) show ?case by simp
qed

lemma construct_round_built:
  assumes d: "distinct (c_remaining st)"
    and b: "\<forall>p \<in> set (c_ops st). \<exists>seed h ns h'. Op_init imap ini seed h ns = Inr (p, h')
              \<and> distinct (map (\<lambda>n. tape_index (h n)) ns)"
    and r: "construct_round imap ini idm st = Inr st'"
  shows "distinct (c_remaining st')
         \<and> (\<forall>p \<in> set (c_ops st'). \<exists>seed h ns h'. Op_init imap ini seed h ns = Inr (p, h')
              \<and> distinct (map (\<lambda>n. tape_index (h n)) ns))"
proof -
  from r obtain h1 i1 opn fails opn2
    where sc: "scan (c_remaining st) (c_store st) (c_i st) [] = (h1, i1, opn)"
      and opn2: "opn2 = (if fails \<noteq> [] then filter (\<lambda>n. op_id (h1 n) \<notin> set fails) opn else opn)"
      and rm: "remove_nodes opn2 (c_remaining st) = Inr (c_remaining st')"
      and e: "opn2 = [] \<Longrightarrow> c_store st' = h1 \<and> c_ops st' = c_ops st"
      and ne: "opn2 \<noteq> [] \<Longrightarrow> \<exists>new_op. Op_init imap ini (length (c_ops st)) h1 opn2 = Inr (new_op, c_store st')
                         \<and> c_ops st' = c_ops st @ [new_op]"
    by (rule construct_round_cases) blast
  from scan_increasing[OF sc d] have "map (\<lambda>n. tape_index (h1 n)) opn = [c_i st..<i1]" by simp
  then have "distinct (map (\<lambda>n. tape_index (h1 n)) opn)" by simp
  then have d2: "distinct (map (\<lambda>n. tape_index (h1 n)) opn2)"
    unfolding opn2 by (simp add: distinct_map_filter)
  have 1: "distinct (c_remaining st')" by (rule remove_nodes_distinct[OF rm d])
  have 2: "\<forall>p \<in> set (c_ops st'). \<exists>seed h ns h'. Op_init imap ini seed h ns = Inr (p, h')
              \<and> distinct (map (\<lambda>n. tape_index (h n)) ns)"
  proof (cases "opn2 = []")
    case True
    with e b show ?thesis by simp
  next
    case False
    from ne[OF False] obtain new_op
      where n: "Op_init imap ini (length (c_ops st)) h1 opn2 = Inr (new_op, c_store st')"
        "c_ops st' = c_ops st @ [new_op]" by blast
    from n(1) d2 have "\<exists>seed h ns h'. Op_init imap ini seed h ns = Inr (new_op, h')
              \<and> distinct (map (\<lambda>n. tape_index (h n)) ns)" by blast
    with b n(2) show ?thesis by auto
  qed
  from 1 2 show ?thesis by (rule conjI)
qed

lemma construct_loop_built:
  "distinct (c_remaining st)
     \<Longrightarrow> \<forall>p \<in> set (c_ops st). \<exists>seed h ns h'. Op_init imap ini seed h ns = Inr (p, h')
              \<and> distinct (map (\<lambda>n. tape_index (h n)) ns)
     \<Longrightarrow> construct_loop imap ini idm fuel st = Some (Inr st')
     \<Longrightarrow> \<forall>p \<in> set (c_ops st'). \<exists>seed h ns h'. Op_init imap ini seed h ns = Inr (p, h')
              \<and> distinct (map (\<lambda>n. tape_index (h n)) ns)"
proof (induction fuel arbitrary: st)
  case 0
  then show ?case by (simp split: if_splits)
next
  case (Suc fuel)
  show ?case
  proof (cases "c_remaining st = []")
    case True
    with Suc.prems show ?thesis by simp
  next
    case False
    show ?thesis
    proof (cases "construct_round imap ini idm st")
      case (Inl e)
      with False Suc.prems(3) show ?thesis by simp
    next
      case (Inr st1)
      with False Suc.prems(3) have l: "construct_loop imap ini idm fuel st1 = Some (Inr st')"
        by simp
      from construct_round_built[OF Suc.prems(1,2) Inr]
      have "distinct (c_remaining st1)"
        and "\<forall>p \<in> set (c_ops st1). \<exists>seed h ns h'. Op_init imap ini seed h ns = Inr (p, h')
              \<and> distinct (map (\<lambda>n. tape_index (h n)) ns)" by blast+
      from Suc.IH[OF this l] show ?thesis .
    qed
  qed
qed

lemma Model_init_ops_built:
  fixes m :: "('a::{zero,plus,times}) model"
  assumes mi: "Model_init imap fuel g ini h = Some (Inr (m, h'))"
    and d: "distinct (hidden_nodes g @ output_nodes g)"
  shows "\<forall>p \<in> set (ops m). \<exists>seed h1 ns h2. Op_init imap ini seed h1 ns = Inr (p, h2)
              \<and> distinct (map (\<lambda>n. tape_index (h1 n)) ns)"
proof -
  let ?b = "blank_model g ini :: 'a model"
  from Model_init_fields(1)[OF mi] obtain st
    where l: "construct_loop imap ini (start_map ?b h) fuel (start_state ?b h) = Some (Inr st)"
      and o: "ops m = c_ops st" by blast
  have 1: "distinct (c_remaining (start_state ?b h))"
    using d by (simp add: start_state_def blank_model_def)
  have 2: "\<forall>p \<in> set (c_ops (start_state ?b h)). \<exists>seed h ns h'.
             Op_init imap ini seed h ns = Inr (p, h')
              \<and> distinct (map (\<lambda>n. tape_index (h n)) ns)"
    by (simp add: start_state_def)
  from construct_loop_built[OF 1 2 l] o show ?thesis by simp
qed

text \<open>
  C5. When \<^verbatim>\<open>Op.forward\<close> returns, the operation object is as before the call, and
  so are its weights and its bias; the tape has the same rows of the same lengths, and
  every position of every row that is not one of the output indices of the operation
  holds the value it held before.
\<close>

theorem Op_forward_frame:
  assumes "Op_forward amap self t = Inr (self', t')"
  shows "self' = self \<and> weights self' = weights self \<and> bias self' = bias self
         \<and> length t' = length t
         \<and> (\<forall>b k. b < length t \<longrightarrow> length (t' ! b) = length (t ! b)
                \<and> (k \<notin> set (output_indices self) \<longrightarrow> t' ! b ! k = t ! b ! k))"
proof -
  from assms have s: "self' = self" and f: "forward amap self t = Inr t'"
    by (auto simp: Op_forward_def split: sum.splits)
  from s f forward_length[OF f] forward_frame[OF f] show ?thesis by simp
qed

lemma op6_run:
  "Op_forward acts op6 tape6 = Inr (op6, [[0, 1, 0, 3 / 5, 0], [0, - 1, 2, 0, 2]])"
  by code_simp

theorem Op_forward_frame_witness:
  "Op_forward acts op6 tape6 = Inr (op6, [[0, 1, 0, 3 / 5, 0], [0, - 1, 2, 0, 2]])
   \<and> weights op6 = weights op6 \<and> bias op6 = bias op6
   \<and> length [[0, 1, 0, 3 / 5, 0], [0, - 1, 2, 0, 2 :: real]] = length tape6
   \<and> (1::nat) < length tape6
   \<and> 2 \<notin> set (output_indices op6)
   \<and> [[0, 1, 0, 3 / 5, 0], [0, - 1, 2, 0, 2]] ! 1 ! 2 = tape6 ! 1 ! 2"
proof -
  note e = op6_run
  note fr = Op_forward_frame[OF e]
  have b: "(1::nat) < length tape6" by (simp add: tape6_def)
  have k: "2 \<notin> set (output_indices op6)" by (simp add: op6_def)
  from fr have "length [[0, 1, 0, 3 / 5, 0], [0, - 1, 2, 0, 2 :: real]] = length tape6"
    by (elim conjE)
  moreover from fr b k
  have "[[0, 1, 0, 3 / 5, 0], [0, - 1, 2, 0, 2]] ! 1 ! 2 = tape6 ! 1 ! 2"
    by (elim conjE allE[of _ 1] allE[of _ 2] impE) assumption+
  ultimately show ?thesis using e b k by simp
qed

subsection \<open>Padded input slots\<close>

lemma fval_mult_zero: "is_finite v \<Longrightarrow> v * 0 = 0" "is_finite v \<Longrightarrow> 0 * v = 0"
  by (cases v; simp add: is_finite_def zero_fval_def)+

lemma fval_add_zero: "(x::fval) + 0 = x"
  by (cases x) (simp_all add: zero_fval_def)

lemma is_finite_zero: "is_finite 0"
  by (simp add: is_finite_def zero_fval_def)

lemma foldl_add_zeros: "\<forall>z \<in> set zs. z = 0 \<Longrightarrow> foldl (+) (a::fval) zs = a"
  by (induction zs arbitrary: a) (simp_all add: fval_add_zero)

lemma torch_sum_take_zeros:
  fixes xs :: "fval list"
  assumes "\<And>j. n \<le> j \<Longrightarrow> j < length xs \<Longrightarrow> xs ! j = 0"
  shows "torch_sum xs = torch_sum (take n xs)"
proof -
  have z: "\<forall>z \<in> set (drop n xs). z = 0"
    using assms by (auto simp: in_set_conv_nth)
  have "torch_sum xs = foldl (+) 0 (take n xs @ drop n xs)"
    by (simp add: torch_sum_def)
  also have "\<dots> = foldl (+) (foldl (+) 0 (take n xs)) (drop n xs)"
    by (simp only: foldl_append)
  also have "\<dots> = foldl (+) 0 (take n xs)"
    using z by (rule foldl_add_zeros)
  finally show ?thesis by (simp add: torch_sum_def)
qed






text \<open>
  C8. \<^verbatim>\<open>Model.forward\<close> raises the \<^verbatim>\<open>AssertionError\<close> of its \<^verbatim>\<open>assert\<close> on every
  input whose rank is neither 1 nor 2, and leaves the model as it was. An input of rank 1
  and length \<open>n\<close> is treated exactly as the input of shape \<open>(1, n)\<close> with the same data.
  On an input of rank 1 or 2 the assertion does not fail (without \<^verbatim>\<open>output_grad\<close>,
  where the backward pass of the library is not called). Whenever the call returns an
  output, the rank of the input was 1 or 2, the output has one row per sample (one row
  for an input of rank 1), and every row has one entry per output index of the model;
  for a model that \<^verbatim>\<open>Model.__init__\<close> has built, that number is \<^verbatim>\<open>output_size\<close>, the
  number of output nodes of the graph.
\<close>

theorem Model_forward_rank:
  fixes self :: "('a::{zero,plus,times}) model"
  shows
  "(length (shape x) \<noteq> 1 \<and> length (shape x) \<noteq> 2
      \<longrightarrow> Model_forward amap backward self x og = (Inl AssertionError, self))
   \<and> (length (shape x) = 1
      \<longrightarrow> Model_forward amap backward self x og
            = Model_forward amap backward self (x\<lparr>shape := [1, shape x ! 0]\<rparr>) og)
   \<and> ((length (shape x) = 1 \<or> length (shape x) = 2) \<and> \<not> og
      \<longrightarrow> fst (Model_forward amap backward self x og) \<noteq> Inl AssertionError)
   \<and> (\<forall>out self'. Model_forward amap backward self x og = (Inr out, self')
      \<longrightarrow> (length (shape x) = 1 \<or> length (shape x) = 2)
          \<and> length out = (if length (shape x) = 1 then 1 else shape x ! 0)
          \<and> (\<forall>row \<in> set out. length row = length (model_output_indices self)))
   \<and> (\<forall>imap fuel g ini h h'. Model_init imap fuel g ini h = Some (Inr (self, h'))
      \<longrightarrow> length (model_output_indices self) = output_size self
          \<and> output_size self = length (output_nodes g))"
proof -
  have c1: "length (shape x) \<noteq> 1 \<and> length (shape x) \<noteq> 2
      \<longrightarrow> Model_forward amap backward self x og = (Inl AssertionError, self)"
    by (simp add: Model_forward_def)
  have c2: "length (shape x) = 1
      \<longrightarrow> Model_forward amap backward self x og
            = Model_forward amap backward self (x\<lparr>shape := [1, shape x ! 0]\<rparr>) og"
  proof
    assume r: "length (shape x) = 1"
    then have "1 # shape x = [1, shape x ! 0]" by (cases "shape x") auto
    with Model_forward_promote[OF r, of amap backward self og]
    show "Model_forward amap backward self x og
            = Model_forward amap backward self (x\<lparr>shape := [1, shape x ! 0]\<rparr>) og" by simp
  qed
  have c3: "(length (shape x) = 1 \<or> length (shape x) = 2) \<and> \<not> og
      \<longrightarrow> fst (Model_forward amap backward self x og) \<noteq> Inl AssertionError"
  proof
    assume a: "(length (shape x) = 1 \<or> length (shape x) = 2) \<and> \<not> og"
    show "fst (Model_forward amap backward self x og) \<noteq> Inl AssertionError"
    proof (cases "length (shape x) = 1")
      case True
      have "fst (Model_forward amap backward self (x\<lparr>shape := 1 # shape x\<rparr>) og) \<noteq> Inl AssertionError"
        using True a by (intro Model_forward_errors) auto
      with Model_forward_promote[OF True, of amap backward self og] show ?thesis by simp
    next
      case False
      with a show ?thesis by (intro Model_forward_errors) auto
    qed
  qed
  have c4: "\<forall>out self'. Model_forward amap backward self x og = (Inr out, self')
      \<longrightarrow> (length (shape x) = 1 \<or> length (shape x) = 2)
          \<and> length out = (if length (shape x) = 1 then 1 else shape x ! 0)
          \<and> (\<forall>row \<in> set out. length row = length (model_output_indices self))"
  proof (intro allI impI)
    fix out self' assume s: "Model_forward amap backward self x og = (Inr out, self')"
    have rk: "length (shape x) = 1 \<or> length (shape x) = 2"
    proof (rule ccontr)
      assume "\<not> ?thesis"
      then have "Model_forward amap backward self x og = (Inl AssertionError, self)"
        by (simp add: Model_forward_def)
      with s show False by simp
    qed
    then have sh: "length out = (if length (shape x) = 1 then 1 else shape x ! 0)
        \<and> (\<forall>row \<in> set out. length row = length (model_output_indices self))"
    proof
      assume r: "length (shape x) = 1"
      from s Model_forward_promote[OF r, of amap backward self og]
      have "Model_forward amap backward self (x\<lparr>shape := 1 # shape x\<rparr>) og = (Inr out, self')"
        by simp
      from Model_forward_shape2[OF _ this] r show ?thesis by simp
    next
      assume r: "length (shape x) = 2"
      from Model_forward_shape2[OF r s] r show ?thesis by simp
    qed
    from rk sh show "(length (shape x) = 1 \<or> length (shape x) = 2)
          \<and> length out = (if length (shape x) = 1 then 1 else shape x ! 0)
          \<and> (\<forall>row \<in> set out. length row = length (model_output_indices self))"
      by (rule conjI)
  qed
  have c5: "\<forall>imap fuel g ini h h'. Model_init imap fuel g ini h = Some (Inr (self, h'))
      \<longrightarrow> length (model_output_indices self) = output_size self
          \<and> output_size self = length (output_nodes g)"
  proof (intro allI impI)
    fix imap :: "'a initialization_map" and fuel g ini h h'
    assume mi: "Model_init imap fuel g ini h = Some (Inr (self, h'))"
    from Model_init_fields(6)[OF mi] Model_init_fields(5)[OF mi]
    show "length (model_output_indices self) = output_size self
          \<and> output_size self = length (output_nodes g)" by simp
  qed
  from c1 c2 c3 c4 c5 show ?thesis by (intro conjI)
qed

theorem Model_forward_rank_witness:
  "Model_forward acts no_raise model6 \<lparr>shape = [1, 1, 2], data = [1, 2]\<rparr> False
     = (Inl AssertionError, model6)
   \<and> Model_forward acts no_raise model6 \<lparr>shape = [], data = [1]\<rparr> False
     = (Inl AssertionError, model6)
   \<and> Model_forward acts no_raise model6 \<lparr>shape = [2], data = [1, 2]\<rparr> False
     = (Inr [[2, 3]], model6\<lparr>tape := Some [[0, 1, 2, 3, 2]]\<rparr>)
   \<and> Model_forward acts no_raise model6 \<lparr>shape = [2, 2], data = [1, 2, - 3, 4]\<rparr> False
     = (Inr [[2, 3], [4, 1]], model6\<lparr>tape := Some [[0, 1, 2, 3, 2], [0, - 3, 4, 1, 4]]\<rparr>)
   \<and> fst (Model_forward acts no_raise model6 \<lparr>shape = [2, 2], data = [1, 2, - 3, 4]\<rparr> False)
       \<noteq> Inl AssertionError
   \<and> length [[2, 3], [4, 1 :: real]] = 2
   \<and> length ([[2, 3], [4, 1 :: real]] ! 1) = length (model_output_indices model6)
   \<and> map_option (map_sum id fst) (Model_init he_only 1 graph6 ''he'' store6)
       = Some (Inr model6)
   \<and> length (model_output_indices model6) = output_size model6
   \<and> output_size model6 = length (output_nodes graph6)"
proof -
  let ?x3 = "\<lparr>shape = [1, 1, 2], data = [1, 2 :: real]\<rparr>"
  let ?x0 = "\<lparr>shape = [], data = [1 :: real]\<rparr>"
  let ?x1 = "\<lparr>shape = [2], data = [1, 2 :: real]\<rparr>"
  let ?x2 = "\<lparr>shape = [2, 2], data = [1, 2, - 3, 4 :: real]\<rparr>"
  note t3 = Model_forward_rank[where x = ?x3 and amap = acts and backward = no_raise
      and self = model6 and og = False]
  note t0 = Model_forward_rank[where x = ?x0 and amap = acts and backward = no_raise
      and self = model6 and og = False]
  note t1 = Model_forward_rank[where x = ?x1 and amap = acts and backward = no_raise
      and self = model6 and og = False]
  note t2 = Model_forward_rank[where x = ?x2 and amap = acts and backward = no_raise
      and self = model6 and og = False]
  have a3: "Model_forward acts no_raise model6 ?x3 False = (Inl AssertionError, model6)"
    by (rule mp[OF conjunct1[OF t3]]) simp
  have a0: "Model_forward acts no_raise model6 ?x0 False = (Inl AssertionError, model6)"
    by (rule mp[OF conjunct1[OF t0]]) simp
  have "Model_forward acts no_raise model6 ?x1 False
      = Model_forward acts no_raise model6 (?x1\<lparr>shape := [1, shape ?x1 ! 0]\<rparr>) False"
    by (rule mp[OF conjunct1[OF conjunct2[OF t1]]]) simp
  then have a1: "Model_forward acts no_raise model6 ?x1 False
      = (Inr [[2, 3]], model6\<lparr>tape := Some [[0, 1, 2, 3, 2]]\<rparr>)"
    using model6_run1 by simp
  have a2: "fst (Model_forward acts no_raise model6 ?x2 False) \<noteq> Inl AssertionError"
    by (rule mp[OF conjunct1[OF conjunct2[OF conjunct2[OF t2]]]]) simp
  note c4 = conjunct1[OF conjunct2[OF conjunct2[OF conjunct2[OF t2]]]]
  note s4 = mp[OF spec[OF spec[OF c4]], OF model6_run]
  have b1: "length [[2, 3], [4, 1 :: real]] = 2"
    using conjunct1[OF conjunct2[OF s4]] by simp
  have m: "[[2, 3], [4, 1 :: real]] ! 1 \<in> set [[2, 3], [4, 1 :: real]]" by simp
  have b2: "length ([[2, 3], [4, 1 :: real]] ! 1) = length (model_output_indices model6)"
    by (rule bspec[OF conjunct2[OF conjunct2[OF s4]] m])
  obtain h where mi: "Model_init he_only 1 graph6 ''he'' store6 = Some (Inr (model6, h))"
    using graph6_model by (rule exE)
  note c5 = conjunct2[OF conjunct2[OF conjunct2[OF conjunct2[OF t2]]]]
  note s5 = mp[OF spec[OF spec[OF spec[OF spec[OF spec[OF spec[OF c5]]]]]], OF mi]
  have d: "map_option (map_sum id fst) (Model_init he_only 1 graph6 ''he'' store6)
       = Some (Inr model6)"
    unfolding mi by simp
  show ?thesis
    by (intro conjI a3 a0 a1 model6_run a2 b1 b2 d conjunct1[OF s5] conjunct2[OF s5])
qed

text \<open>
  C7. For a model that \<^verbatim>\<open>Model.__init__\<close> has built: every node of the graph has a
  tape index of at least 1, no operation has 0 among its output indices, and the model
  satisfies \<open>reserves_index0\<close>. For every model that satisfies \<open>reserves_index0\<close> and
  every pass of \<^verbatim>\<open>Model.forward\<close> on it: every tape of the pass (after the zero-fill,
  after the inputs are written, after each operation) has the value 0 in position 0 of
  every row; the model that the pass leaves satisfies \<open>reserves_index0\<close> again, and so
  does the model after \<^verbatim>\<open>compile\<close> and after a change of its operations that keeps
  their output indices; when the pass returns, the tape it stores is the last tape of
  the pass and the output is read from it. Writing the inputs changes no position of a
  row other than the positions 1 to \<^verbatim>\<open>input_size\<close>.
\<close>

theorem index0_reserved:
  fixes m :: "('a::{zero,plus,times}) model"
  assumes "Model_init imap fuel g ini h = Some (Inr (m, h'))"
  shows "(\<forall>n \<in> set (input_nodes g @ hidden_nodes g @ output_nodes g). 1 \<le> tape_index (h' n))
       \<and> (\<forall>p \<in> set (ops m). 0 \<notin> set (output_indices p))
       \<and> reserves_index0 m
       \<and> (\<forall>(self :: 'a model) amap backward x og. reserves_index0 self \<longrightarrow>
            (\<forall>t \<in> set (tape_trace amap self x). \<forall>row \<in> set t. row \<noteq> [] \<and> row ! 0 = 0)
            \<and> reserves_index0 (snd (Model_forward amap backward self x og))
            \<and> (\<forall>out self'. Model_forward amap backward self x og = (Inr out, self') \<longrightarrow>
                  tape_trace amap self x \<noteq> []
                  \<and> self' = self\<lparr>tape := Some (last (tape_trace amap self x))\<rparr>
                  \<and> out = index_select1 (last (tape_trace amap self x)) (model_output_indices self))
            \<and> (\<forall>ops'. map output_indices ops' = map output_indices (ops self)
                  \<longrightarrow> reserves_index0 (self\<lparr>ops := ops'\<rparr>))
            \<and> (\<forall>opt lf. reserves_index0 (compile self opt lf)))
       \<and> (\<forall>n (t0 :: 'a matrix) xs t1 b k.
            write_inputs n t0 xs = Inr t1 \<and> b < length t1 \<and> k < length (t0 ! b) \<and> (k = 0 \<or> n < k)
            \<longrightarrow> t1 ! b ! k = t0 ! b ! k)"
proof -
  note c1 = Model_init_index_inv(1)[OF assms]
  note c2 = Model_init_index_inv(2)[OF assms]
  note c3 = Model_init_reserves_index0[OF assms]
  have c4: "\<forall>(self :: 'a model) amap backward x og. reserves_index0 self \<longrightarrow>
            (\<forall>t \<in> set (tape_trace amap self x). \<forall>row \<in> set t. row \<noteq> [] \<and> row ! 0 = 0)
            \<and> reserves_index0 (snd (Model_forward amap backward self x og))
            \<and> (\<forall>out self'. Model_forward amap backward self x og = (Inr out, self') \<longrightarrow>
                  tape_trace amap self x \<noteq> []
                  \<and> self' = self\<lparr>tape := Some (last (tape_trace amap self x))\<rparr>
                  \<and> out = index_select1 (last (tape_trace amap self x)) (model_output_indices self))
            \<and> (\<forall>ops'. map output_indices ops' = map output_indices (ops self)
                  \<longrightarrow> reserves_index0 (self\<lparr>ops := ops'\<rparr>))
            \<and> (\<forall>opt lf. reserves_index0 (compile self opt lf))"
  proof (intro allI impI)
    fix self :: "'a model" and amap backward x og
    assume r: "reserves_index0 self"
    have a: "\<forall>t \<in> set (tape_trace amap self x). \<forall>row \<in> set t. row \<noteq> [] \<and> row ! 0 = 0"
      using zero_at_0_tape_trace[OF r, of amap x] by (simp add: zero_at_0_def)
    have b: "reserves_index0 (snd (Model_forward amap backward self x og))"
      by (rule reserves_index0_Model_forward[OF r])
    have c: "\<forall>out self'. Model_forward amap backward self x og = (Inr out, self') \<longrightarrow>
                  tape_trace amap self x \<noteq> []
                  \<and> self' = self\<lparr>tape := Some (last (tape_trace amap self x))\<rparr>
                  \<and> out = index_select1 (last (tape_trace amap self x)) (model_output_indices self)"
      using tape_trace_nonempty Model_forward_tape(2) by blast
    have d: "\<forall>ops'. map output_indices ops' = map output_indices (ops self)
                  \<longrightarrow> reserves_index0 (self\<lparr>ops := ops'\<rparr>)"
      using reserves_index0_params[OF r] by blast
    have e: "\<forall>opt lf. reserves_index0 (compile self opt lf)"
      using reserves_index0_compile[OF r] by blast
    from a b c d e show "(\<forall>t \<in> set (tape_trace amap self x). \<forall>row \<in> set t. row \<noteq> [] \<and> row ! 0 = 0)
            \<and> reserves_index0 (snd (Model_forward amap backward self x og))
            \<and> (\<forall>out self'. Model_forward amap backward self x og = (Inr out, self') \<longrightarrow>
                  tape_trace amap self x \<noteq> []
                  \<and> self' = self\<lparr>tape := Some (last (tape_trace amap self x))\<rparr>
                  \<and> out = index_select1 (last (tape_trace amap self x)) (model_output_indices self))
            \<and> (\<forall>ops'. map output_indices ops' = map output_indices (ops self)
                  \<longrightarrow> reserves_index0 (self\<lparr>ops := ops'\<rparr>))
            \<and> (\<forall>opt lf. reserves_index0 (compile self opt lf))"
      by (intro conjI)
  qed
  have c5: "\<forall>n (t0 :: 'a matrix) xs t1 b k.
            write_inputs n t0 xs = Inr t1 \<and> b < length t1 \<and> k < length (t0 ! b) \<and> (k = 0 \<or> n < k)
            \<longrightarrow> t1 ! b ! k = t0 ! b ! k"
    using write_inputs_frame by blast
  from c1 c2 c3 c4 c5 show ?thesis by (intro conjI)
qed

theorem index0_reserved_witness:
  "map_option (map_sum id (\<lambda>(m, h). (m, list_all (\<lambda>n. 1 \<le> tape_index (h n)) [0, 1, 2, 3])))
       (Model_init he_only 1 graph6 ''he'' store6)
     = Some (Inr (model6, True))
   \<and> 0 \<notin> set (output_indices (ops model6 ! 0))
   \<and> reserves_index0 model6
   \<and> tape_trace acts model6 \<lparr>shape = [2, 2], data = [1, 2, - 3, 4]\<rparr>
     = [[[0, 0, 0, 0, 0], [0, 0, 0, 0, 0]],
        [[0, 1, 2, 0, 0], [0, - 3, 4, 0, 0]],
        [[0, 1, 2, 3, 2], [0, - 3, 4, 1, 4]]]
   \<and> [0, - 3, 4, 1, 4 :: real] ! 0 = 0
   \<and> Model_forward acts no_raise model6 \<lparr>shape = [2, 2], data = [1, 2, - 3, 4]\<rparr> False
     = (Inr [[2, 3], [4, 1]], model6\<lparr>tape := Some [[0, 1, 2, 3, 2], [0, - 3, 4, 1, 4]]\<rparr>)
   \<and> reserves_index0 (model6\<lparr>tape := Some [[0, 1, 2, 3, 2], [0, - 3, 4, 1, 4]]\<rparr>)
   \<and> reserves_index0 (compile model6 ''adam'' ''mse'')
   \<and> write_inputs 2 [[0, 0, 0, 0, 0 :: real]] [[1, 2]] = Inr [[0, 1, 2, 0, 0]]
   \<and> [[0, 1, 2, 0, 0 :: real]] ! 0 ! 3 = [[0, 0, 0, 0, 0]] ! 0 ! 3"
proof -
  let ?x = "\<lparr>shape = [2, 2], data = [1, 2, - 3, 4 :: real]\<rparr>"
  obtain h where mi: "Model_init he_only 1 graph6 ''he'' store6 = Some (Inr (model6, h))"
    using graph6_model by (rule exE)
  note t = index0_reserved[OF mi]
  note c1 = conjunct1[OF t]
  note c2 = conjunct1[OF conjunct2[OF t]]
  note c3 = conjunct1[OF conjunct2[OF conjunct2[OF t]]]
  note c4 = conjunct1[OF conjunct2[OF conjunct2[OF conjunct2[OF t]]]]
  note c5 = conjunct2[OF conjunct2[OF conjunct2[OF conjunct2[OF t]]]]
  have "set (input_nodes graph6 @ hidden_nodes graph6 @ output_nodes graph6) = set [0, 1, 2, 3]"
    by (simp add: graph6_def)
  with c1 have "list_all (\<lambda>n. 1 \<le> tape_index (h n)) [0, 1, 2, 3]"
    unfolding list_all_iff by simp
  then have a1: "map_option (map_sum id (\<lambda>(m, h). (m, list_all (\<lambda>n. 1 \<le> tape_index (h n)) [0, 1, 2, 3])))
       (Model_init he_only 1 graph6 ''he'' store6) = Some (Inr (model6, True))"
    unfolding mi by simp
  have "ops model6 ! 0 \<in> set (ops model6)" by (simp add: model6_def)
  with c2 have a2: "0 \<notin> set (output_indices (ops model6 ! 0))" by (rule bspec)
  note q1 = spec[OF c4, of model6]
  note q2 = spec[OF q1, of acts]
  note q3 = spec[OF q2, of no_raise]
  note q4 = spec[OF q3, of ?x]
  note q5 = spec[OF q4, of False]
  note s4 = mp[OF q5 c3]
  have m3: "[[0, 1, 2, 3, 2], [0, - 3, 4, 1, 4]] \<in> set (tape_trace acts model6 ?x)"
    unfolding model6_trace by simp
  have r3: "[0, - 3, 4, 1, 4 :: real] \<in> set [[0, 1, 2, 3, 2], [0, - 3, 4, 1, 4]]" by simp
  have a5: "[0, - 3, 4, 1, 4 :: real] ! 0 = 0"
    by (rule conjunct2[OF bspec[OF bspec[OF conjunct1[OF s4] m3] r3]])
  have "reserves_index0 (snd (Model_forward acts no_raise model6 ?x False))"
    by (rule conjunct1[OF conjunct2[OF s4]])
  then have a7: "reserves_index0 (model6\<lparr>tape := Some [[0, 1, 2, 3, 2], [0, - 3, 4, 1, 4]]\<rparr>)"
    unfolding model6_run by simp
  have a8: "reserves_index0 (compile model6 ''adam'' ''mse'')"
    by (rule spec[OF spec[OF conjunct2[OF conjunct2[OF conjunct2[OF conjunct2[OF s4]]]], of "''adam''"], of "''mse''"])
  have p: "write_inputs 2 [[0, 0, 0, 0, 0 :: real]] [[1, 2]] = Inr [[0, 1, 2, 0, 0]]
      \<and> 0 < length [[0, 1, 2, 0, 0 :: real]] \<and> 3 < length ([[0, 0, 0, 0, 0 :: real]] ! 0)
      \<and> ((3::nat) = 0 \<or> (2::nat) < 3)"
    using write_inputs_example by simp
  have a10: "[[0, 1, 2, 0, 0 :: real]] ! 0 ! 3 = [[0, 0, 0, 0, 0]] ! 0 ! 3"
    by (rule mp[OF spec[OF spec[OF spec[OF spec[OF spec[OF spec[OF c5, of 2], of "[[0, 0, 0, 0, 0]]"],
      of "[[1, 2]]"], of "[[0, 1, 2, 0, 0]]"], of 0], of 3] p])
  show ?thesis
    by (intro conjI a1 a2 c3 model6_trace a5 model6_run a7 a8 write_inputs_example a10)
qed

subsection \<open>The forward contract\<close>

lemma dense_sum_real_slots:
  fixes wr :: "fval list"
  assumes "length inps \<le> length wr"
    and "\<forall>j. length inps \<le> j \<and> j < length wr \<longrightarrow> is_finite (wr ! j)"
  shows "dense_sum xr ins inps wr
           = torch_sum (map (\<lambda>j. xr ! index_of ins (inps ! j) * wr ! j) [0..<length inps])"
proof -
  let ?L = "map (\<lambda>j. (if j < length inps then xr ! index_of ins (inps ! j) else 0) * wr ! j)
              [0..<length wr]"
  have z: "?L ! j = 0" if "length inps \<le> j" "j < length ?L" for j
    using that assms(2) by (simp add: fval_mult_zero(2))
  have "take (length inps) ?L
      = map (\<lambda>j. (if j < length inps then xr ! index_of ins (inps ! j) else 0) * wr ! j)
          [0..<length inps]"
    using assms(1) by (simp add: take_map min_def)
  also have "\<dots> = map (\<lambda>j. xr ! index_of ins (inps ! j) * wr ! j) [0..<length inps]"
    by (rule map_cong[OF refl]) simp
  finally have t: "take (length inps) ?L
      = map (\<lambda>j. xr ! index_of ins (inps ! j) * wr ! j) [0..<length inps]" .
  have "dense_sum xr ins inps wr = torch_sum ?L" by (simp add: dense_sum_def)
  also have "\<dots> = torch_sum (take (length inps) ?L)"
    by (rule torch_sum_take_zeros) (rule z)
  finally show ?thesis unfolding t .
qed

text \<open>
  C3. Let an operation be built by \<^verbatim>\<open>Op.__init__\<close> from nodes with distinct tape
  indices, and let its weights and biases have any values of the shapes that
  \<^verbatim>\<open>Op.__init__\<close> gave them. Whenever \<^verbatim>\<open>Op.forward\<close> returns, the returned tape holds,
  for every sample \<open>b\<close> and every node \<open>i\<close> of the operation, at the tape index of the
  node the value of the activation of the node applied to the sum over the input slots
  \<open>j\<close> of (tape value at input index \<open>[i][j]\<close> times weight \<open>[i][j]\<close>), plus bias \<open>[i]\<close>;
  and \<^verbatim>\<open>Op.forward\<close> does return when the tape has all the positions that the
  operation reads and writes and \<^verbatim>\<open>activation_map\<close> knows the activations of the
  nodes. Every operation of a model that \<^verbatim>\<open>Model.__init__\<close> has built from a graph
  without repeated nodes is such an operation. For a graph
  without hidden nodes whose output nodes read input nodes only, \<^verbatim>\<open>Model.__init__\<close>
  builds a model with one operation, whose padded weights are 0, and on every input of
  shape (batch, number of input nodes) \<^verbatim>\<open>Model.forward\<close> returns an output whose entry
  \<open>[b][k]\<close> is the activation of the \<open>k\<close>-th output node applied to \<open>dense_sum\<close> (the sum
  over the slots of the node of input value times weight) plus the bias of the node.
  Over \<open>fval\<close>, \<open>dense_sum\<close> is the sum over the inputs of the node alone when the
  weights of the padded slots are finite.
\<close>

theorem forward_contract:
  fixes imap :: "('a::{zero,plus,times}) initialization_map"
  shows
  "(\<forall>seed h ns self h' W B (amap :: 'a activation_map) t.
      Op_init imap ini seed h ns = Inr (self, h')
      \<and> same_shape (input_indices self) W \<and> length B = length ns
      \<and> distinct (map (\<lambda>n. tape_index (h n)) ns)
      \<longrightarrow> (\<forall>t'. forward amap (self\<lparr>weights := W, bias := B\<rparr>) t = Inr t' \<longrightarrow>
             (\<forall>b i. b < length t \<and> i < length ns \<longrightarrow>
                (\<exists>f. amap (activation (h (ns ! i))) = Some f
                    \<and> t' ! b ! tape_index (h (ns ! i))
                        = f (torch_sum
                               (map (\<lambda>j. t ! b ! (input_indices self ! i ! j) * W ! i ! j)
                                  [0..<length (input_indices self ! i)])
                             + B ! i))))
        \<and> (in_range (unique_input_indices self) t \<and> in_range (output_indices self) t
            \<and> (\<forall>n \<in> set ns. amap (activation (h n)) \<noteq> None)
            \<longrightarrow> (\<exists>t'. forward amap (self\<lparr>weights := W, bias := B\<rparr>) t = Inr t')))
   \<and> (\<forall>fuel g h (m :: 'a model) h'.
        Model_init imap fuel g ini h = Some (Inr (m, h'))
        \<and> distinct (hidden_nodes g @ output_nodes g)
        \<longrightarrow> (\<forall>p \<in> set (ops m). \<exists>seed h1 ns h2.
               Op_init imap ini seed h1 ns = Inr (p, h2)
               \<and> distinct (map (\<lambda>n. tape_index (h1 n)) ns)))
   \<and> (\<forall>fuel g h init.
        hidden_nodes g = [] \<and> output_nodes g \<noteq> []
        \<and> distinct (input_nodes g @ output_nodes g)
        \<and> (\<forall>n \<in> set (output_nodes g). set (inputs (h n)) \<subseteq> set (input_nodes g))
        \<and> imap ini = Some init \<and> (\<forall>seed idx. same_shape idx (init seed idx))
        \<longrightarrow> (\<exists>m h' p.
               Model_init imap (Suc fuel) g ini h = Some (Inr (m, h'))
             \<and> ops m = [p]
             \<and> (\<forall>i j. i < length (output_nodes g)
                      \<and> length (inputs (h (output_nodes g ! i))) \<le> j
                      \<and> j < length (weights p ! i) \<longrightarrow> weights p ! i ! j = 0)
             \<and> (\<forall>W Bs amap backward x batch.
                   same_shape (weights p) W \<and> length Bs = length (output_nodes g)
                   \<and> shape x = [batch, length (input_nodes g)]
                   \<and> length (data x) = batch * length (input_nodes g)
                   \<and> (\<forall>n \<in> set (output_nodes g). amap (activation (h n)) \<noteq> None)
                   \<longrightarrow> (\<exists>out m'.
                          Model_forward amap backward
                              (m\<lparr>ops := [p\<lparr>weights := W, bias := Bs\<rparr>]\<rparr>) x False
                            = (Inr out, m')
                        \<and> length out = batch
                        \<and> (\<forall>b k. b < batch \<and> k < length (output_nodes g) \<longrightarrow>
                             (\<exists>f. amap (activation (h (output_node h (output_nodes g) k))) = Some f
                                \<and> out ! b ! k
                                    = f (dense_sum (rows_of x ! b) (input_nodes g)
                                           (inputs (h (output_node h (output_nodes g) k)))
                                           (W ! index_of (output_nodes g)
                                                  (output_node h (output_nodes g) k))
                                         + Bs ! index_of (output_nodes g)
                                                  (output_node h (output_nodes g) k))))))))
   \<and> (\<forall>(wr :: fval list) xr ins inps.
        length inps \<le> length wr
        \<and> (\<forall>j. length inps \<le> j \<and> j < length wr \<longrightarrow> is_finite (wr ! j))
        \<longrightarrow> dense_sum xr ins inps wr
             = torch_sum (map (\<lambda>j. xr ! index_of ins (inps ! j) * wr ! j) [0..<length inps]))"
proof (intro conjI)
  show "\<forall>seed h ns self h' W B (amap :: 'a activation_map) t.
      Op_init imap ini seed h ns = Inr (self, h')
      \<and> same_shape (input_indices self) W \<and> length B = length ns
      \<and> distinct (map (\<lambda>n. tape_index (h n)) ns)
      \<longrightarrow> (\<forall>t'. forward amap (self\<lparr>weights := W, bias := B\<rparr>) t = Inr t' \<longrightarrow>
             (\<forall>b i. b < length t \<and> i < length ns \<longrightarrow>
                (\<exists>f. amap (activation (h (ns ! i))) = Some f
                    \<and> t' ! b ! tape_index (h (ns ! i))
                        = f (torch_sum
                               (map (\<lambda>j. t ! b ! (input_indices self ! i ! j) * W ! i ! j)
                                  [0..<length (input_indices self ! i)])
                             + B ! i))))
        \<and> (in_range (unique_input_indices self) t \<and> in_range (output_indices self) t
            \<and> (\<forall>n \<in> set ns. amap (activation (h n)) \<noteq> None)
            \<longrightarrow> (\<exists>t'. forward amap (self\<lparr>weights := W, bias := B\<rparr>) t = Inr t'))"
  proof (intro allI impI, elim conjE, intro conjI allI impI)
    fix seed h ns h' and self :: "'a op" and W :: "'a matrix" and B :: "'a list"
      and amap :: "'a activation_map" and t :: "'a matrix" and t' b i
    assume "Op_init imap ini seed h ns = Inr (self, h')" "same_shape (input_indices self) W"
      "length B = length ns" "distinct (map (\<lambda>n. tape_index (h n)) ns)"
      "forward amap (self\<lparr>weights := W, bias := B\<rparr>) t = Inr t'"
      "b < length t \<and> i < length ns"
    then show "\<exists>f. amap (activation (h (ns ! i))) = Some f
                    \<and> t' ! b ! tape_index (h (ns ! i))
                        = f (torch_sum
                               (map (\<lambda>j. t ! b ! (input_indices self ! i ! j) * W ! i ! j)
                                  [0..<length (input_indices self ! i)])
                             + B ! i)"
      using Op_forward_contract by blast
  next
    fix seed h ns h' and self :: "'a op" and W :: "'a matrix" and B :: "'a list"
      and amap :: "'a activation_map" and t :: "'a matrix"
    assume "Op_init imap ini seed h ns = Inr (self, h')" "same_shape (input_indices self) W"
      "length B = length ns"
      "in_range (unique_input_indices self) t \<and> in_range (output_indices self) t
            \<and> (\<forall>n \<in> set ns. amap (activation (h n)) \<noteq> None)"
    then show "\<exists>t'. forward amap (self\<lparr>weights := W, bias := B\<rparr>) t = Inr t'"
      using Op_forward_returns by blast
  qed
next
  show "\<forall>fuel g h (m :: 'a model) h'.
        Model_init imap fuel g ini h = Some (Inr (m, h'))
        \<and> distinct (hidden_nodes g @ output_nodes g)
        \<longrightarrow> (\<forall>p \<in> set (ops m). \<exists>seed h1 ns h2.
               Op_init imap ini seed h1 ns = Inr (p, h2)
               \<and> distinct (map (\<lambda>n. tape_index (h1 n)) ns))"
    using Model_init_ops_built by blast
next
  show "\<forall>fuel g h init.
        hidden_nodes g = [] \<and> output_nodes g \<noteq> []
        \<and> distinct (input_nodes g @ output_nodes g)
        \<and> (\<forall>n \<in> set (output_nodes g). set (inputs (h n)) \<subseteq> set (input_nodes g))
        \<and> imap ini = Some init \<and> (\<forall>seed idx. same_shape idx (init seed idx))
        \<longrightarrow> (\<exists>m h' p.
               Model_init imap (Suc fuel) g ini h = Some (Inr (m, h'))
             \<and> ops m = [p]
             \<and> (\<forall>i j. i < length (output_nodes g)
                      \<and> length (inputs (h (output_nodes g ! i))) \<le> j
                      \<and> j < length (weights p ! i) \<longrightarrow> weights p ! i ! j = 0)
             \<and> (\<forall>W Bs amap backward x batch.
                   same_shape (weights p) W \<and> length Bs = length (output_nodes g)
                   \<and> shape x = [batch, length (input_nodes g)]
                   \<and> length (data x) = batch * length (input_nodes g)
                   \<and> (\<forall>n \<in> set (output_nodes g). amap (activation (h n)) \<noteq> None)
                   \<longrightarrow> (\<exists>out m'.
                          Model_forward amap backward
                              (m\<lparr>ops := [p\<lparr>weights := W, bias := Bs\<rparr>]\<rparr>) x False
                            = (Inr out, m')
                        \<and> length out = batch
                        \<and> (\<forall>b k. b < batch \<and> k < length (output_nodes g) \<longrightarrow>
                             (\<exists>f. amap (activation (h (output_node h (output_nodes g) k))) = Some f
                                \<and> out ! b ! k
                                    = f (dense_sum (rows_of x ! b) (input_nodes g)
                                           (inputs (h (output_node h (output_nodes g) k)))
                                           (W ! index_of (output_nodes g)
                                                  (output_node h (output_nodes g) k))
                                         + Bs ! index_of (output_nodes g)
                                                  (output_node h (output_nodes g) k)))))))"
  proof (intro allI impI, elim conjE)
    fix fuel and g :: graph and h :: store and init :: "'a initializer"
    assume "hidden_nodes g = []" "output_nodes g \<noteq> []"
      "distinct (input_nodes g @ output_nodes g)"
      "\<forall>n \<in> set (output_nodes g). set (inputs (h n)) \<subseteq> set (input_nodes g)"
      "imap ini = Some init" "\<forall>seed idx. same_shape idx (init seed idx)"
    then show "\<exists>m h' p.
               Model_init imap (Suc fuel) g ini h = Some (Inr (m, h'))
             \<and> ops m = [p]
             \<and> (\<forall>i j. i < length (output_nodes g)
                      \<and> length (inputs (h (output_nodes g ! i))) \<le> j
                      \<and> j < length (weights p ! i) \<longrightarrow> weights p ! i ! j = 0)
             \<and> (\<forall>W Bs amap backward x batch.
                   same_shape (weights p) W \<and> length Bs = length (output_nodes g)
                   \<and> shape x = [batch, length (input_nodes g)]
                   \<and> length (data x) = batch * length (input_nodes g)
                   \<and> (\<forall>n \<in> set (output_nodes g). amap (activation (h n)) \<noteq> None)
                   \<longrightarrow> (\<exists>out m'.
                          Model_forward amap backward
                              (m\<lparr>ops := [p\<lparr>weights := W, bias := Bs\<rparr>]\<rparr>) x False
                            = (Inr out, m')
                        \<and> length out = batch
                        \<and> (\<forall>b k. b < batch \<and> k < length (output_nodes g) \<longrightarrow>
                             (\<exists>f. amap (activation (h (output_node h (output_nodes g) k))) = Some f
                                \<and> out ! b ! k
                                    = f (dense_sum (rows_of x ! b) (input_nodes g)
                                           (inputs (h (output_node h (output_nodes g) k)))
                                           (W ! index_of (output_nodes g)
                                                  (output_node h (output_nodes g) k))
                                         + Bs ! index_of (output_nodes g)
                                                  (output_node h (output_nodes g) k))))))"
      by (rule zero_hidden_contract)
  qed
next
  show "\<forall>(wr :: fval list) xr ins inps.
        length inps \<le> length wr
        \<and> (\<forall>j. length inps \<le> j \<and> j < length wr \<longrightarrow> is_finite (wr ! j))
        \<longrightarrow> dense_sum xr ins inps wr
             = torch_sum (map (\<lambda>j. xr ! index_of ins (inps ! j) * wr ! j) [0..<length inps])"
    using dense_sum_real_slots by blast
qed

lemma op6_he_init:
  "\<exists>h'. Op_init he_only ''he'' 0 store6_in [2, 3] = Inr (op6_he, h')"
proof -
  have "case Op_init he_only ''he'' 0 store6_in [2, 3] of
          Inr (p, h') \<Rightarrow> p = op6_he | Inl e \<Rightarrow> False"
    by code_simp
  then show ?thesis by (auto split: sum.splits)
qed

lemma store6_in_fields:
  "map (\<lambda>n. tape_index (store6_in n)) [2, 3] = [3, 4]"
  "map (\<lambda>n. activation (store6_in n)) [2, 3] = [''relu'', ''linear'']"
  by code_simp+

lemma op6_forward:
  "forward acts op6 tape6 = Inr [[0, 1, 0, 3 / 5, 0], [0, - 1, 2, 0, 2]]"
  by code_simp

lemma ops_model6: "ops model6 = [op6_he]"
  by (simp add: model6_def op6_he_def)

lemma output_node6: "output_node store6 [2, 3] 0 = 3" "index_of [2, 3] (3::nat) = 1"
  by code_simp+

subsection \<open>construct on graphs with grouping tags\<close>

text \<open>
  C1. On graph 1 \<^verbatim>\<open>construct\<close> returns after two rounds, and the tape indices are not
  unique and not topological. In the first round the nodes 2, 3 and 4 receive the indices
  2, 3 and 4; the last of them, node 4, has tag g, and node 5 of tag g is not among them, so
  nodes 2 and 4 are taken out and the counter goes back by two, to 3, although node 3
  keeps index 3. The second round hands out 3, 4, 5, 6 to the nodes 1, 2, 4, 5. Node 1 has
  node 3 as its input and the same tape index 3: the second operation overwrites the
  output of the first at position 3.
\<close>

theorem construct_tape_index_collision:
  "case Model_init he_only 2 graph1 ''he'' store1 of
     Some (Inr (m, h)) \<Rightarrow>
       map (\<lambda>n. tape_index (h n)) [0, 1, 2, 3, 4, 5] = [1, 3, 4, 3, 5, 6]
       \<and> inputs (h 1) = [3]
       \<and> map nodes (ops m) = [[3], [1, 2, 4, 5]]
       \<and> map output_indices (ops m) = [[3], [3, 4, 5, 6]]
   | _ \<Rightarrow> False"
  by code_simp

text \<open>
  C2. On graph 2 \<^verbatim>\<open>construct\<close> returns after two rounds with the operations
  [1, 2] and [3, 4]: the nodes 1 and 3 carry the tag g and are in different operations,
  each of which holds a proper nonempty part of the tag. The list \<^verbatim>\<open>fails\<close> is reset
  for every node of the round, so only the tag of the last node of a round is checked, and
  the last nodes here (2 and 4) have no tag.
\<close>

theorem construct_splits_group:
  "case Model_init he_only 2 graph2 ''he'' store2 of
     Some (Inr (m, h)) \<Rightarrow>
       map nodes (ops m) = [[1, 2], [3, 4]]
       \<and> map (\<lambda>n. op_id (h n)) [1, 2, 3, 4] = [''g'', ''any'', ''g'', ''any'']
   | _ \<Rightarrow> False"
  by code_simp

text \<open>A state of the loop on graph 3 from which no round ever finalises a node: node 3 is
  the only remaining node, its input is assigned, and node 1 of its tag is never in the
  round again.\<close>

lemma stuck_round:
  assumes "c_remaining st = [3]" "inputs (c_store st 3) = [2]" "op_id (c_store st 3) = ''g''"
    "assigned (c_store st 2)" "idm ''g'' = Some [1, 3]"
  shows "\<exists>st'. construct_round imap ini idm st = Inr st' \<and> c_remaining st' = [3]
           \<and> inputs (c_store st' 3) = [2] \<and> op_id (c_store st' 3) = ''g''
           \<and> assigned (c_store st' 2)"
  using assms by (simp add: construct_round_def)

lemma stuck_loop:
  assumes "c_remaining st = [3]" "inputs (c_store st 3) = [2]" "op_id (c_store st 3) = ''g''"
    "assigned (c_store st 2)" "idm ''g'' = Some [1, 3]"
  shows "construct_loop imap ini idm fuel st = None"
  using assms
proof (induction fuel arbitrary: st)
  case 0
  then show ?case by simp
next
  case (Suc fuel)
  from stuck_round[where st=st and idm=idm and imap=imap and ini=ini, OF Suc.prems] obtain st'
    where r: "construct_round imap ini idm st = Inr st'" and s: "c_remaining st' = [3]"
      "inputs (c_store st' 3) = [2]" "op_id (c_store st' 3) = ''g''" "assigned (c_store st' 2)"
    by blast
  from Suc.IH[OF s Suc.prems(5)] r Suc.prems(1) show ?case by simp
qed

lemma graph3_start:
  "c_remaining (start_state (blank_model graph3 ''he'' :: real model) store3) \<noteq> []"
  "start_map (blank_model graph3 ''he'' :: real model) store3 ''g'' = Some [1, 3]"
  by (simp_all add: start_state_def start_map_def blank_model_def graph3_def store3_def
      new_node_def)

lemma graph3_first_round:
  "\<exists>st. construct_round he_only ''he'' (start_map (blank_model graph3 ''he'' :: real model) store3)
          (start_state (blank_model graph3 ''he'' :: real model) store3) = Inr st
        \<and> c_remaining st = [3] \<and> inputs (c_store st 3) = [2] \<and> op_id (c_store st 3) = ''g''
        \<and> assigned (c_store st 2)"
  by (simp add: start_state_def start_map_def blank_model_def graph3_def
      construct_round_def store3_def new_node_def he_only_def ones_def Op_init_def
      Let_def pad_sequence_def max_len_def torch_unique_def index_of_def mask_zero_def
      same_shape_def set_assigned_def)

text \<open>
  C4. Graph 3 has no cycle, and its tag g can be satisfied (after node 2 is finalised, the
  nodes 1 and 3 both have all inputs assigned). Still \<^verbatim>\<open>construct\<close> does not return on
  it: with every amount of fuel the loop is still running. The first round finalises the
  nodes 1 and 2 together, because the last node of the round has no tag; from then on
  node 3 fails the check of its tag in every round.
\<close>

theorem construct_diverges_on_satisfiable_grouping:
  "Model_init he_only fuel graph3 ''he'' store3 = None"
proof (rule Model_init_diverges)
  let ?idm = "start_map (blank_model graph3 ''he'' :: real model) store3"
  let ?st0 = "start_state (blank_model graph3 ''he'' :: real model) store3"
  from graph3_first_round obtain st1
    where r: "construct_round he_only ''he'' ?idm ?st0 = Inr st1"
      and s: "c_remaining st1 = [3]" "inputs (c_store st1 3) = [2]"
        "op_id (c_store st1 3) = ''g''" "assigned (c_store st1 2)"
    by blast
  show "construct_loop he_only ''he'' ?idm fuel ?st0 = None"
  proof (cases fuel)
    case 0
    then show ?thesis using construct_loop_0[OF graph3_start(1)] by simp
  next
    case (Suc k)
    have "construct_loop he_only ''he'' ?idm (Suc k) ?st0 = construct_loop he_only ''he'' ?idm k st1"
      using graph3_start(1) r by (rule construct_loop_Suc)
    also have "\<dots> = None"
      using s graph3_start(2) by (rule stuck_loop)
    finally show ?thesis using Suc by simp
  qed
qed

text \<open>On graph 4, whose two nodes are each other's input, the first round finds no node,
  the variable \<^verbatim>\<open>fails\<close> is read before it was ever assigned, and \<^verbatim>\<open>construct\<close>
  raises instead of running forever.\<close>

lemma construct_cycle_raises:
  "Model_init he_only (Suc fuel) graph4 ''he'' store4 = Some (Inl UnboundLocalError)"
  by (simp add: Model_init_def construct_def graph4_def Let_def store4_def new_node_def
      construct_round_def)

subsection \<open>Model.compile and Model.fit\<close>

lemma Model_init_unconfigured:
  "Model_init imap fuel g ini h = Some (Inr (m, h'))
     \<Longrightarrow> optimizer m = None \<and> loss_function m = None"
  by (auto simp: Model_init_def Let_def split: option.splits sum.splits prod.splits)

lemma graph6_constructs:
  "\<exists>m h. Model_init he_only 1 graph6 ''he'' store6 = Some (Inr (m, h))"
proof -
  have "case Model_init he_only 1 graph6 ''he'' store6 of
          Some (Inr p) \<Rightarrow> True | _ \<Rightarrow> False"
    by code_simp
  then show ?thesis by (auto split: option.splits sum.splits)
qed

text \<open>
  C9. When \<^verbatim>\<open>fit\<close> is called and no optimiser has been configured, the call raises
  \<^verbatim>\<open>RuntimeError\<close> at once and leaves the model exactly as it was: no tape is allocated
  or cached, and no operation, weight or bias is changed. This holds for every table of
  activations, every training step and all arguments of \<^verbatim>\<open>fit\<close>.
\<close>

theorem fit_before_compile:
  "optimizer self = None \<Longrightarrow>
     fit amap backward step self X_tr y_tr epochs batch_size = (Some RuntimeError, self)"
  by (simp add: fit_def)

theorem fit_before_compile_witness:
  "\<exists>m h. Model_init he_only 1 graph6 ''he'' store6 = Some (Inr (m, h))
        \<and> optimizer m = None
        \<and> fit acts no_raise keep_step m \<lparr>shape = [2, 2], data = [1, 0, -1, 2]\<rparr>
            \<lparr>shape = [2, 2], data = [1, 0, 0, 1]\<rparr> 1 1 = (Some RuntimeError, m)"
proof -
  from graph6_constructs obtain m h
    where m: "Model_init he_only 1 graph6 ''he'' store6 = Some (Inr (m, h))" by blast
  then have "optimizer m = None" by (simp add: Model_init_unconfigured)
  with m fit_before_compile[of m acts no_raise keep_step] show ?thesis by blast
qed

text \<open>
  C10. \<^verbatim>\<open>compile\<close> has no error result. With an optimiser name other than
  \<^verbatim>\<open>'adam'\<close> and \<^verbatim>\<open>'sgd'\<close> it leaves the attribute \<^verbatim>\<open>optimizer\<close> as it was, so
  an optimiser that was \<^verbatim>\<open>None\<close> (as \<^verbatim>\<open>__init__\<close> sets it) is still \<^verbatim>\<open>None\<close>,
  and a following \<^verbatim>\<open>fit\<close> raises the \<^verbatim>\<open>RuntimeError\<close> of C9. With a loss name other
  than \<^verbatim>\<open>'mse'\<close> and \<^verbatim>\<open>'crossentropy'\<close> it leaves \<^verbatim>\<open>loss_function\<close> as it was,
  \<^verbatim>\<open>None\<close> if it was \<^verbatim>\<open>None\<close>.
\<close>

theorem compile_unrecognized:
  "(opt \<noteq> ''adam'' \<and> opt \<noteq> ''sgd'' \<longrightarrow>
      optimizer (compile self opt lf) = optimizer self
      \<and> (optimizer self = None \<longrightarrow>
           optimizer (compile self opt lf) = None
           \<and> fst (fit amap backward step (compile self opt lf) X_tr y_tr epochs batch_size)
               = Some RuntimeError))
   \<and> (lf \<noteq> ''mse'' \<and> lf \<noteq> ''crossentropy'' \<longrightarrow>
        loss_function (compile self opt lf) = loss_function self
        \<and> (loss_function self = None \<longrightarrow> loss_function (compile self opt lf) = None))"
  by (simp add: compile_def fit_def Let_def)

theorem compile_unrecognized_witness:
  "\<exists>m h. Model_init he_only 1 graph6 ''he'' store6 = Some (Inr (m, h))
        \<and> ''rmsprop'' \<noteq> ''adam'' \<and> ''rmsprop'' \<noteq> ''sgd''
        \<and> ''huber'' \<noteq> ''mse'' \<and> ''huber'' \<noteq> ''crossentropy''
        \<and> optimizer m = None \<and> loss_function m = None
        \<and> optimizer (compile m ''rmsprop'' ''huber'') = None
        \<and> loss_function (compile m ''rmsprop'' ''huber'') = None
        \<and> fst (fit acts no_raise keep_step (compile m ''rmsprop'' ''huber'')
                 \<lparr>shape = [2, 2], data = [1, 0, -1, 2]\<rparr>
                 \<lparr>shape = [2, 2], data = [1, 0, 0, 1]\<rparr> 1 1) = Some RuntimeError"
proof -
  from graph6_constructs obtain m h
    where m: "Model_init he_only 1 graph6 ''he'' store6 = Some (Inr (m, h))" by blast
  then have none: "optimizer m = None" "loss_function m = None"
    by (simp_all add: Model_init_unconfigured)
  have names: "''rmsprop'' \<noteq> ''adam'' \<and> ''rmsprop'' \<noteq> ''sgd''"
    "''huber'' \<noteq> ''mse'' \<and> ''huber'' \<noteq> ''crossentropy''"
    by simp_all
  note c = compile_unrecognized[of "''rmsprop''" m "''huber''" acts no_raise keep_step
             "\<lparr>shape = [2, 2], data = [1, 0, -1, 2]\<rparr>"
             "\<lparr>shape = [2, 2], data = [1, 0, 0, 1]\<rparr>" 1 1]
  have 1: "optimizer (compile m ''rmsprop'' ''huber'') = None
           \<and> fst (fit acts no_raise keep_step (compile m ''rmsprop'' ''huber'')
                 \<lparr>shape = [2, 2], data = [1, 0, -1, 2]\<rparr>
                 \<lparr>shape = [2, 2], data = [1, 0, 0, 1]\<rparr> 1 1) = Some RuntimeError"
    by (rule mp[OF conjunct2[OF mp[OF conjunct1[OF c] names(1)]] none(1)])
  have 2: "loss_function (compile m ''rmsprop'' ''huber'') = None"
    by (rule mp[OF conjunct2[OF mp[OF conjunct2[OF c] names(2)]] none(2)])
  show ?thesis
    apply (rule exI[of _ m], rule exI[of _ h])
    apply (rule conjI[OF m])
    apply (rule conjI[OF conjunct1[OF names(1)]], rule conjI[OF conjunct2[OF names(1)]])
    apply (rule conjI[OF conjunct1[OF names(2)]], rule conjI[OF conjunct2[OF names(2)]])
    apply (rule conjI[OF none(1)], rule conjI[OF none(2)])
    apply (rule conjI[OF conjunct1[OF 1]], rule conjI[OF 2])
    apply (rule conjunct2[OF 1])
    done
qed

end
